theory Spec2Isabelle
  imports Main "HOL-Library.Word" "HOL-Library.Multiset"
begin

section \<open>Strings, numbers and arrays of the host language\<close>

text \<open>
  A string of the source language is a sequence of UTF-16 code units, and
  \<open>substring\<close>, \<open>split\<close> and \<open>join\<close> count and compare code units. A code unit
  is a 16-bit word; \<open>str\<close> embeds a (one byte per character) literal.
\<close>

type_synonym code_unit = "16 word"
type_synonym jsstring = "code_unit list"

definition str :: "string \<Rightarrow> jsstring" where
  "str s = map of_char s"

abbreviation newline :: code_unit where
  "newline \<equiv> 10"

text \<open>
  \<open>s.split('\n')\<close>: the pieces of \<open>s\<close> between line breaks. The result is never
  empty: the empty string has the single piece \<open>''\<close>.
\<close>

fun splitLines :: "jsstring \<Rightarrow> jsstring list" where
  "splitLines [] = [[]]"
| "splitLines (c # cs) =
     (if c = newline then [] # splitLines cs
      else (case splitLines cs of [] \<Rightarrow> [[c]] | l # ls \<Rightarrow> (c # l) # ls))"

text \<open>\<open>a.join('\n')\<close>: the elements of \<open>a\<close> with one line break between neighbours.\<close>

fun joinLines :: "jsstring list \<Rightarrow> jsstring" where
  "joinLines [] = []"
| "joinLines [l] = l"
| "joinLines (l # m # ls) = l @ newline # joinLines (m # ls)"

text \<open>
  \<open>a.splice(start, deleteCount, ...items)\<close>: \<open>start\<close> is clamped to the length of the
  array, \<open>deleteCount\<close> to what is left after \<open>start\<close> (and to 0 from below); the
  deleted elements are replaced by \<open>items\<close>.
\<close>

definition arraySplice :: "'a list \<Rightarrow> nat \<Rightarrow> int \<Rightarrow> 'a list \<Rightarrow> 'a list" where
  "arraySplice a start deleteCount items =
     (let actualStart = min start (length a);
          actualDeleteCount = min (nat (max deleteCount 0)) (length a - actualStart)
      in take actualStart a @ items @ drop (actualStart + actualDeleteCount) a)"

text \<open>
  \<open>[...a].sort(cmp)\<close>: the sort of the language is stable, and \<open>cmp x y \<le> 0\<close> keeps
  \<open>x\<close> before \<open>y\<close>. For a comparator that is a total preorder the result of a stable
  sort is determined by the input, so insertion from the right computes it.
\<close>

fun insertBy :: "('a \<Rightarrow> 'a \<Rightarrow> int) \<Rightarrow> 'a \<Rightarrow> 'a list \<Rightarrow> 'a list" where
  "insertBy cmp x [] = [x]"
| "insertBy cmp x (y # ys) =
     (if cmp x y \<le> 0 then x # y # ys else y # insertBy cmp x ys)"

definition sortBy :: "('a \<Rightarrow> 'a \<Rightarrow> int) \<Rightarrow> 'a list \<Rightarrow> 'a list" where
  "sortBy cmp a = foldr (insertBy cmp) a []"

text \<open>
  Number to string, for the non-negative integers that line and character numbers are:
  the decimal digits, most significant first.
\<close>

fun numberToString :: "nat \<Rightarrow> jsstring" where
  "numberToString n =
     (if n < 10 then [of_nat (48 + n)]
      else numberToString (n div 10) @ [of_nat (48 + n mod 10)])"

declare numberToString.simps [simp del]

section \<open>Data model\<close>

text \<open>
  Positions are 0-based; \<open>character\<close> is an offset in code units within the line.
  Line and character numbers are unsigned integers of the protocol, on which the
  arithmetic of the source (\<open>+ 1\<close>, differences) is exact.
\<close>

record Position =
  line :: nat
  character :: nat

record Range =
  start :: Position
  finish :: Position

record TextEdit =
  erange :: Range
  newText :: jsstring

section \<open>Applying text edits to the lines of a file\<close>

text \<open>The comparator of the sort: descending start line, then descending start character.\<close>

definition compareEdits :: "TextEdit \<Rightarrow> TextEdit \<Rightarrow> int" where
  "compareEdits a b =
     (let lineDiff = int (line (start (erange b))) - int (line (start (erange a)))
      in if lineDiff \<noteq> 0 then lineDiff
         else int (character (start (erange b))) - int (character (start (erange a))))"

datatype error =
    CreateFileMissingUri
  | DeleteFileMissingUri
  | RenameFileMissingUri
  | TypeError
  | FilesystemFailure

text \<open>
  The body of the loop over the sorted edits. Reading a line beyond the array gives
  \<open>undefined\<close>, and calling \<open>substring\<close> on it throws a \<open>TypeError\<close>; \<open>substring\<close>
  clamps its arguments to the length of the string, as \<open>take\<close> and \<open>drop\<close> do.
\<close>

definition applyEdit :: "jsstring list \<Rightarrow> TextEdit \<Rightarrow> error + jsstring list" where
  "applyEdit lines edit =
     (let s = start (erange edit); e = finish (erange edit) in
      if line s = line e then
        (if line s < length lines then
           (let ln = lines ! line s;
                before = take (character s) ln;
                after = drop (character e) ln
            in Inr (lines[line s := before @ newText edit @ after]))
         else Inl TypeError)
      else
        (if line s < length lines \<and> line e < length lines then
           (let startLine = lines ! line s;
                endLine = lines ! line e;
                beforeStart = take (character s) startLine;
                afterEnd = drop (character e) endLine;
                newLines = splitLines (beforeStart @ newText edit @ afterEnd)
            in Inr (arraySplice lines (line s) (int (line e) - int (line s) + 1) newLines))
         else Inl TypeError))"

fun applyEdits :: "jsstring list \<Rightarrow> TextEdit list \<Rightarrow> error + jsstring list" where
  "applyEdits lines [] = Inr lines"
| "applyEdits lines (edit # edits) =
     (case applyEdit lines edit of
        Inl err \<Rightarrow> Inl err
      | Inr lines' \<Rightarrow> applyEdits lines' edits)"

section \<open>The environment: log, filesystem, path resolution\<close>

text \<open>
  The world the engine acts on: what every file holds, the messages passed to \<open>log\<close>,
  oldest first, and the calls made to the filesystem, oldest first. What a file holds
  (its bytes) is of a type \<open>'b\<close> that the engine never looks into: it reaches the files
  only through the four primitives below.
\<close>

datatype fscall =
    ReadFile jsstring
  | WriteFile jsstring jsstring
  | DeleteFile jsstring
  | RenameFile jsstring jsstring

record 'b world =
  files :: "jsstring \<rightharpoonup> 'b"
  logged :: "jsstring list"
  fscalls :: "fscall list"

text \<open>
  Modelled from the spec: \<open>log\<close> of the logger module is a diagnostic sink (section 6
  of the specification); it records the message and does nothing else.
\<close>

definition log :: "jsstring \<Rightarrow> 'b world \<Rightarrow> 'b world" where
  "log message w = w\<lparr>logged := logged w @ [message]\<rparr>"

text \<open>
  Modelled from the spec: the filesystem primitives \<open>Bun.file(p).text()\<close>,
  \<open>Bun.write\<close>, \<open>Bun.file(p).delete()\<close> and \<open>rename\<close> of \<open>node:fs/promises\<close> are
  collaborators of the engine (section 6 of the specification: each is awaited and may
  fail with a filesystem error). A filesystem is given by three parameters:
  \<^item> \<open>decodeText\<close>, the text that \<open>file.text()\<close> returns for what a file holds;
  \<^item> \<open>encodeText\<close>, what \<open>Bun.write\<close> stores for a text;
  \<^item> \<open>callFails\<close>, which says of a call and of the files as they are whether the call
    fails for a reason of the filesystem's own (permissions, a directory in the way, a
    missing parent directory, a full disk).
  Reading, deleting and renaming fail also when there is no file at the path. A failing
  call leaves the files as they are. Every call is recorded, also a failing one.
\<close>

record 'b filesystem =
  decodeText :: "'b \<Rightarrow> jsstring"
  encodeText :: "jsstring \<Rightarrow> 'b"
  callFails :: "fscall \<Rightarrow> (jsstring \<rightharpoonup> 'b) \<Rightarrow> bool"

definition readFile ::
  "'b filesystem \<Rightarrow> jsstring \<Rightarrow> 'b world \<Rightarrow> (error + jsstring) \<times> 'b world" where
  "readFile fs p w =
     (let w' = w\<lparr>fscalls := fscalls w @ [ReadFile p]\<rparr>
      in case files w p of
           None \<Rightarrow> (Inl FilesystemFailure, w')
         | Some held \<Rightarrow>
             if callFails fs (ReadFile p) (files w) then (Inl FilesystemFailure, w')
             else (Inr (decodeText fs held), w'))"

definition writeFile ::
  "'b filesystem \<Rightarrow> jsstring \<Rightarrow> jsstring \<Rightarrow> 'b world \<Rightarrow> (error + unit) \<times> 'b world" where
  "writeFile fs p content w =
     (let w' = w\<lparr>fscalls := fscalls w @ [WriteFile p content]\<rparr>
      in if callFails fs (WriteFile p content) (files w) then (Inl FilesystemFailure, w')
         else (Inr (), w'\<lparr>files := (files w)(p \<mapsto> encodeText fs content)\<rparr>))"

definition deleteFile ::
  "'b filesystem \<Rightarrow> jsstring \<Rightarrow> 'b world \<Rightarrow> (error + unit) \<times> 'b world" where
  "deleteFile fs p w =
     (let w' = w\<lparr>fscalls := fscalls w @ [DeleteFile p]\<rparr>
      in case files w p of
           None \<Rightarrow> (Inl FilesystemFailure, w')
         | Some held \<Rightarrow>
             if callFails fs (DeleteFile p) (files w) then (Inl FilesystemFailure, w')
             else (Inr (), w'\<lparr>files := (files w)(p := None)\<rparr>))"

definition renameFile ::
  "'b filesystem \<Rightarrow> jsstring \<Rightarrow> jsstring \<Rightarrow> 'b world \<Rightarrow> (error + unit) \<times> 'b world" where
  "renameFile fs oldPath newPath w =
     (let w' = w\<lparr>fscalls := fscalls w @ [RenameFile oldPath newPath]\<rparr>
      in case files w oldPath of
           None \<Rightarrow> (Inl FilesystemFailure, w')
         | Some held \<Rightarrow>
             if callFails fs (RenameFile oldPath newPath) (files w)
             then (Inl FilesystemFailure, w')
             else (Inr (), w'\<lparr>files := ((files w)(oldPath := None))(newPath \<mapsto> held)\<rparr>))"

text \<open>
  \<open>urlToFilePath\<close> (imported from the utilities module) and
  \<open>path.relative(process.cwd(), _)\<close> are pure functions of their argument; the engine
  takes them as parameters.
\<close>

record env =
  urlToFilePath :: "jsstring \<Rightarrow> jsstring"
  relativeToCwd :: "jsstring \<Rightarrow> jsstring"

section \<open>applyTextEdits\<close>

abbreviation dquote :: code_unit where
  "dquote \<equiv> 34"

definition dryRunPrefix :: "bool \<Rightarrow> jsstring" where
  "dryRunPrefix dryRun = (if dryRun then str ''[DRY RUN] '' else [])"

text \<open>The line logged for one edit in a dry run.\<close>

definition dryRunLine :: "TextEdit \<Rightarrow> jsstring" where
  "dryRunLine edit =
     (let startLine = line (start (erange edit)) + 1;
          startChar = character (start (erange edit));
          endLine = line (finish (erange edit)) + 1;
          endChar = character (finish (erange edit))
      in str ''  [DRY RUN] '' @ numberToString startLine @ str '':'' @ numberToString startChar
         @ str ''-'' @ numberToString endLine @ str '':'' @ numberToString endChar
         @ str '': '' @ [dquote] @ newText edit @ [dquote])"

fun logAll :: "jsstring list \<Rightarrow> 'b world \<Rightarrow> 'b world" where
  "logAll [] w = w"
| "logAll (m # ms) w = logAll ms (log m w)"

text \<open>\<open>applyTextEdits\<close>, on the filesystem \<open>fs\<close>.\<close>

definition applyTextEditsOn ::
  "'b filesystem \<Rightarrow> jsstring \<Rightarrow> TextEdit list \<Rightarrow> bool \<Rightarrow> 'b world
   \<Rightarrow> (error + nat) \<times> 'b world" where
  "applyTextEditsOn fs filePath edits dryRun w =
     (if length edits = 0 then (Inr 0, w)
      else
        (let w1 = log (dryRunPrefix dryRun @ str ''Applying '' @ numberToString (length edits)
                       @ str '' edits to '' @ filePath) w;
             sortedEdits = sortBy compareEdits edits
         in if dryRun then
              (Inr (length edits), logAll (map dryRunLine (rev sortedEdits)) w1)
            else
              (case readFile fs filePath w1 of
                 (Inl err, w2) \<Rightarrow> (Inl err, w2)
               | (Inr content, w2) \<Rightarrow>
                   (case applyEdits (splitLines content) sortedEdits of
                      Inl err \<Rightarrow> (Inl err, w2)
                    | Inr lines' \<Rightarrow>
                        (case writeFile fs filePath (joinLines lines') w2 of
                           (Inl err, w3) \<Rightarrow> (Inl err, w3)
                         | (Inr u, w3) \<Rightarrow> (Inr (length edits), w3))))))"

section \<open>applyFileOperation\<close>

text \<open>
  A file operation as it arrives: the \<open>kind\<close> tag and the optional locations. \<open>None\<close>
  is an absent property. The \<open>switch\<close> compares \<open>kind\<close> with the three tags; a value
  that is not a string matches none of them, as a string other than the three does.
\<close>

record FileOperation =
  kind :: jsstring
  uri :: "jsstring option"
  oldUri :: "jsstring option"
  newUri :: "jsstring option"

text \<open>\<open>!x\<close> for an optional string: true when it is absent or the empty string.\<close>

definition falsy :: "jsstring option \<Rightarrow> bool" where
  "falsy x = (case x of None \<Rightarrow> True | Some s \<Rightarrow> s = [])"

text \<open>\<open>applyFileOperation\<close>, on the filesystem \<open>fs\<close>.\<close>

definition applyFileOperationOn ::
  "'b filesystem \<Rightarrow> env \<Rightarrow> FileOperation \<Rightarrow> bool \<Rightarrow> 'b world
   \<Rightarrow> (error + unit) \<times> 'b world" where
  "applyFileOperationOn fs env operation dryRun w =
     (if kind operation = str ''create'' then
        (if falsy (uri operation) then (Inl CreateFileMissingUri, w)
         else
           (let filePath = urlToFilePath env (the (uri operation));
                w1 = log (dryRunPrefix dryRun @ str ''Create file: '' @ filePath) w
            in if \<not> dryRun then writeFile fs filePath [] w1 else (Inr (), w1)))
      else if kind operation = str ''delete'' then
        (if falsy (uri operation) then (Inl DeleteFileMissingUri, w)
         else
           (let filePath = urlToFilePath env (the (uri operation));
                w1 = log (dryRunPrefix dryRun @ str ''Delete file: '' @ filePath) w
            in if \<not> dryRun then deleteFile fs filePath w1 else (Inr (), w1)))
      else if kind operation = str ''rename'' then
        (if falsy (oldUri operation) \<or> falsy (newUri operation)
         then (Inl RenameFileMissingUri, w)
         else
           (let oldPath = urlToFilePath env (the (oldUri operation));
                newPath = urlToFilePath env (the (newUri operation));
                w1 = log (dryRunPrefix dryRun @ str ''Rename file: '' @ oldPath
                          @ str '' -> '' @ newPath) w
            in if \<not> dryRun then renameFile fs oldPath newPath w1 else (Inr (), w1)))
      else (Inr (), w))"

section \<open>applyWorkspaceEdit\<close>

text \<open>
  An entry of \<open>documentChanges\<close> is a file operation when it has a \<open>kind\<close> property,
  and a text document edit (\<open>textDocument.uri\<close> and \<open>edits\<close>) otherwise. The legacy
  \<open>changes\<close> object is the list of its entries in the order of \<open>Object.entries\<close>.
  \<open>None\<close> is an absent property; an array or an object, also an empty one, is truthy.
\<close>

datatype DocumentChange =
    FileOp FileOperation
  | TextDocumentEdit jsstring "TextEdit list"

record WorkspaceEdit =
  documentChanges :: "DocumentChange list option"
  legacyChanges :: "(jsstring \<times> TextEdit list) list option"

record ApplyResult =
  relFile :: jsstring
  changes :: nat

text \<open>The two loops of \<open>applyWorkspaceEdit\<close> and the function itself, on the filesystem \<open>fs\<close>.\<close>

fun applyDocumentChangesOn ::
  "'b filesystem \<Rightarrow> env \<Rightarrow> DocumentChange list \<Rightarrow> bool \<Rightarrow> ApplyResult list \<Rightarrow> 'b world
   \<Rightarrow> (error + ApplyResult list) \<times> 'b world" where
  "applyDocumentChangesOn fs env [] dryRun results w = (Inr results, w)"
| "applyDocumentChangesOn fs env (FileOp operation # rest) dryRun results w =
     (case applyFileOperationOn fs env operation dryRun w of
        (Inl err, w') \<Rightarrow> (Inl err, w')
      | (Inr u, w') \<Rightarrow> applyDocumentChangesOn fs env rest dryRun results w')"
| "applyDocumentChangesOn fs env (TextDocumentEdit u edits # rest) dryRun results w =
     (let filePath = urlToFilePath env u
      in case applyTextEditsOn fs filePath edits dryRun w of
           (Inl err, w') \<Rightarrow> (Inl err, w')
         | (Inr applied, w') \<Rightarrow>
             applyDocumentChangesOn fs env rest dryRun
               (results @ [\<lparr>relFile = relativeToCwd env filePath, changes = applied\<rparr>]) w')"

fun applyLegacyChangesOn ::
  "'b filesystem \<Rightarrow> env \<Rightarrow> (jsstring \<times> TextEdit list) list \<Rightarrow> bool \<Rightarrow> ApplyResult list
   \<Rightarrow> 'b world \<Rightarrow> (error + ApplyResult list) \<times> 'b world" where
  "applyLegacyChangesOn fs env [] dryRun results w = (Inr results, w)"
| "applyLegacyChangesOn fs env ((u, edits) # rest) dryRun results w =
     (let filePath = urlToFilePath env u
      in case applyTextEditsOn fs filePath edits dryRun w of
           (Inl err, w') \<Rightarrow> (Inl err, w')
         | (Inr applied, w') \<Rightarrow>
             applyLegacyChangesOn fs env rest dryRun
               (results @ [\<lparr>relFile = relativeToCwd env filePath, changes = applied\<rparr>]) w')"

definition applyWorkspaceEditOn ::
  "'b filesystem \<Rightarrow> env \<Rightarrow> WorkspaceEdit \<Rightarrow> bool \<Rightarrow> 'b world
   \<Rightarrow> (error + ApplyResult list) \<times> 'b world" where
  "applyWorkspaceEditOn fs env edit dryRun w =
     (case documentChanges edit of
        Some dcs \<Rightarrow> applyDocumentChangesOn fs env dcs dryRun [] w
      | None \<Rightarrow>
          (case legacyChanges edit of
             Some cs \<Rightarrow> applyLegacyChangesOn fs env cs dryRun [] w
           | None \<Rightarrow> (Inr [], w)))"

section \<open>The engine on a store of texts\<close>

text \<open>
  The simplest filesystem: a file holds its text, as it is written and as it is read,
  and no call fails but reading, deleting or renaming a file that is not there. The
  source's functions without a filesystem parameter are the engine on this store.
\<close>

definition memoryFs :: "jsstring filesystem" where
  "memoryFs = \<lparr>decodeText = (\<lambda>held. held), encodeText = (\<lambda>content. content),
               callFails = (\<lambda>call held. False)\<rparr>"

definition applyTextEdits ::
  "jsstring \<Rightarrow> TextEdit list \<Rightarrow> bool \<Rightarrow> jsstring world \<Rightarrow> (error + nat) \<times> jsstring world" where
  "applyTextEdits = applyTextEditsOn memoryFs"

definition applyFileOperation ::
  "env \<Rightarrow> FileOperation \<Rightarrow> bool \<Rightarrow> jsstring world \<Rightarrow> (error + unit) \<times> jsstring world" where
  "applyFileOperation = applyFileOperationOn memoryFs"

definition applyDocumentChanges ::
  "env \<Rightarrow> DocumentChange list \<Rightarrow> bool \<Rightarrow> ApplyResult list \<Rightarrow> jsstring world
   \<Rightarrow> (error + ApplyResult list) \<times> jsstring world" where
  "applyDocumentChanges = applyDocumentChangesOn memoryFs"

definition applyLegacyChanges ::
  "env \<Rightarrow> (jsstring \<times> TextEdit list) list \<Rightarrow> bool \<Rightarrow> ApplyResult list \<Rightarrow> jsstring world
   \<Rightarrow> (error + ApplyResult list) \<times> jsstring world" where
  "applyLegacyChanges = applyLegacyChangesOn memoryFs"

definition applyWorkspaceEdit ::
  "env \<Rightarrow> WorkspaceEdit \<Rightarrow> bool \<Rightarrow> jsstring world
   \<Rightarrow> (error + ApplyResult list) \<times> jsstring world" where
  "applyWorkspaceEdit = applyWorkspaceEditOn memoryFs"

section \<open>The engine on a store of bytes\<close>

text \<open>
  Modelled from the spec: the filesystem of the runtime holds bytes. \<open>Bun.write\<close> stores
  a string as UTF-8 and \<open>file.text()\<close> decodes the bytes of the file as UTF-8; they are
  collaborators of the engine (section 6 of the specification), modelled after the
  encoder and the decoder of the Encoding standard:
  \<^item> the encoder reads the code units as code points: a high surrogate followed by a low
    surrogate is one code point above \<open>U+FFFF\<close>, any other surrogate is replaced by
    \<open>U+FFFD\<close>; each code point becomes one to four bytes;
  \<^item> the decoder drops a leading byte order mark \<open>EF BB BF\<close>, replaces every maximal
    ill-formed part of the input by \<open>U+FFFD\<close> (a byte that cannot start a sequence, a
    sequence cut short by a byte that cannot continue it or by the end of the input), and
    gives each code point as one or two code units.
  The state of the decoder is the number of continuation bytes still needed, the code
  point collected so far, and the bounds of the next continuation byte.
\<close>

type_synonym byte = "8 word"

definition isHighSurrogate :: "code_unit \<Rightarrow> bool" where
  "isHighSurrogate c = (55296 \<le> unat c \<and> unat c \<le> 56319)"

definition isLowSurrogate :: "code_unit \<Rightarrow> bool" where
  "isLowSurrogate c = (56320 \<le> unat c \<and> unat c \<le> 57343)"

definition loneUnit :: "code_unit \<Rightarrow> nat" where
  "loneUnit c = (if isHighSurrogate c \<or> isLowSurrogate c then 65533 else unat c)"

fun codePoints :: "jsstring \<Rightarrow> nat list" where
  "codePoints [] = []"
| "codePoints [c] = [loneUnit c]"
| "codePoints (c # d # cs) =
     (if isHighSurrogate c \<and> isLowSurrogate d
      then (65536 + (unat c - 55296) * 1024 + (unat d - 56320)) # codePoints cs
      else loneUnit c # codePoints (d # cs))"

definition utf8Bytes :: "nat \<Rightarrow> byte list" where
  "utf8Bytes cp =
     (if cp < 128 then [of_nat cp]
      else if cp < 2048 then [of_nat (192 + cp div 64), of_nat (128 + cp mod 64)]
      else if cp < 65536 then
        [of_nat (224 + cp div 4096), of_nat (128 + cp div 64 mod 64), of_nat (128 + cp mod 64)]
      else
        [of_nat (240 + cp div 262144), of_nat (128 + cp div 4096 mod 64),
         of_nat (128 + cp div 64 mod 64), of_nat (128 + cp mod 64)])"

definition utf8Encode :: "jsstring \<Rightarrow> byte list" where
  "utf8Encode s = concat (map utf8Bytes (codePoints s))"

type_synonym decoder = "nat \<times> nat \<times> nat \<times> nat"

definition idle :: decoder where
  "idle = (0, 0, 128, 191)"

text \<open>
  What a byte does when no sequence is open: the code points it gives at once, and the
  state of the decoder after it.
\<close>

definition startOf :: "nat \<Rightarrow> nat list \<times> decoder" where
  "startOf n =
     (if n < 128 then ([n], idle)
      else if 194 \<le> n \<and> n \<le> 223 then ([], (1, n - 192, 128, 191))
      else if 224 \<le> n \<and> n \<le> 239 then
        ([], (2, n - 224, if n = 224 then 160 else 128, if n = 237 then 159 else 191))
      else if 240 \<le> n \<and> n \<le> 244 then
        ([], (3, n - 240, if n = 240 then 144 else 128, if n = 244 then 143 else 191))
      else ([65533], idle))"

fun utf8Scan :: "decoder \<Rightarrow> byte list \<Rightarrow> nat list" where
  "utf8Scan (needed, cp, lower, upper) [] = (if needed = 0 then [] else [65533])"
| "utf8Scan (needed, cp, lower, upper) (b # bs) =
     (let n = unat b in
      if needed = 0 then fst (startOf n) @ utf8Scan (snd (startOf n)) bs
      else if lower \<le> n \<and> n \<le> upper then
        (if needed = 1 then (cp * 64 + (n - 128)) # utf8Scan idle bs
         else utf8Scan (needed - 1, cp * 64 + (n - 128), 128, 191) bs)
      else 65533 # fst (startOf n) @ utf8Scan (snd (startOf n)) bs)"

definition utf16Units :: "nat \<Rightarrow> jsstring" where
  "utf16Units cp =
     (if cp < 65536 then [of_nat cp]
      else [of_nat (55296 + (cp - 65536) div 1024), of_nat (56320 + (cp - 65536) mod 1024)])"

definition utf8Decode :: "byte list \<Rightarrow> jsstring" where
  "utf8Decode bytes =
     (let content = (if take 3 bytes = [239, 187, 191] then drop 3 bytes else bytes)
      in concat (map utf16Units (utf8Scan idle content)))"

text \<open>
  The filesystem of the runtime, when no call fails for a reason of the filesystem's own.
\<close>

definition utf8Fs :: "byte list filesystem" where
  "utf8Fs = \<lparr>decodeText = utf8Decode, encodeText = utf8Encode,
             callFails = (\<lambda>call held. False)\<rparr>"

section \<open>formatWorkspaceEdit\<close>

definition formatEditLine :: "TextEdit \<Rightarrow> jsstring" where
  "formatEditLine textEdit =
     (let s = start (erange textEdit); e = finish (erange textEdit)
      in str ''  '' @ numberToString (line s + 1) @ str '':'' @ numberToString (character s)
         @ str ''-'' @ numberToString (line e + 1) @ str '':'' @ numberToString (character e)
         @ str '': '' @ [dquote] @ newText textEdit @ [dquote])"

definition formatFileOperation :: "env \<Rightarrow> FileOperation \<Rightarrow> jsstring list" where
  "formatFileOperation env change =
     (if kind change = str ''create'' \<and> uri change \<noteq> None then
        [str ''Create: '' @ urlToFilePath env (the (uri change))]
      else if kind change = str ''delete'' \<and> uri change \<noteq> None then
        [str ''Delete: '' @ urlToFilePath env (the (uri change))]
      else if kind change = str ''rename'' \<and> oldUri change \<noteq> None \<and> newUri change \<noteq> None then
        [str ''Rename: '' @ urlToFilePath env (the (oldUri change)) @ str '' -> ''
         @ urlToFilePath env (the (newUri change))]
      else [])"

definition formatTextEdits :: "env \<Rightarrow> jsstring \<Rightarrow> TextEdit list \<Rightarrow> jsstring list" where
  "formatTextEdits env u edits =
     (str ''Edit '' @ urlToFilePath env u @ str '':'') # map formatEditLine edits"

fun formatDocumentChange :: "env \<Rightarrow> DocumentChange \<Rightarrow> jsstring list" where
  "formatDocumentChange env (FileOp change) = formatFileOperation env change"
| "formatDocumentChange env (TextDocumentEdit u edits) = formatTextEdits env u edits"

definition formatWorkspaceEdit :: "env \<Rightarrow> WorkspaceEdit \<Rightarrow> jsstring" where
  "formatWorkspaceEdit env edit =
     joinLines
       (case documentChanges edit of
          Some dcs \<Rightarrow> concat (map (formatDocumentChange env) dcs)
        | None \<Rightarrow>
            (case legacyChanges edit of
               Some cs \<Rightarrow> concat (map (\<lambda>(u, edits). formatTextEdits env u edits) cs)
             | None \<Rightarrow> []))"

section \<open>Notions of the specification\<close>

text \<open>
  The text-edit batches of the plan of a workspace edit, in plan order: the text document
  edits among \<open>documentChanges\<close> when that form is present, else the entries of the
  legacy mapping.
\<close>

fun batchOf :: "DocumentChange \<Rightarrow> (jsstring \<times> TextEdit list) list" where
  "batchOf (FileOp operation) = []"
| "batchOf (TextDocumentEdit u edits) = [(u, edits)]"

definition textEditBatches :: "WorkspaceEdit \<Rightarrow> (jsstring \<times> TextEdit list) list" where
  "textEditBatches edit =
     (case documentChanges edit of
        Some dcs \<Rightarrow> concat (map batchOf dcs)
      | None \<Rightarrow> (case legacyChanges edit of Some cs \<Rightarrow> cs | None \<Rightarrow> []))"

text \<open>The result entry of a batch: the relative path of its file and the number of its edits.\<close>

definition resultOf :: "env \<Rightarrow> jsstring \<times> TextEdit list \<Rightarrow> ApplyResult" where
  "resultOf env b =
     \<lparr>relFile = relativeToCwd env (urlToFilePath env (fst b)), changes = length (snd b)\<rparr>"

text \<open>
  A create or delete operation lacks its target location, or a rename operation lacks
  its source or its target location. An empty string is no location.
\<close>

definition missingLocation :: "FileOperation \<Rightarrow> bool" where
  "missingLocation operation =
     ((kind operation = str ''create'' \<or> kind operation = str ''delete'')
        \<and> falsy (uri operation)
      \<or> kind operation = str ''rename''
        \<and> (falsy (oldUri operation) \<or> falsy (newUri operation)))"

text \<open>The error of a file operation that lacks a location, by the kind of the operation.\<close>

definition missingLocationError :: "FileOperation \<Rightarrow> error" where
  "missingLocationError operation =
     (if kind operation = str ''create'' then CreateFileMissingUri
      else if kind operation = str ''delete'' then DeleteFileMissingUri
      else RenameFileMissingUri)"

text \<open>
  For a file operation of one of the three kinds: the action line that is logged, and
  the call to the filesystem that is made outside a dry run (an empty write for a create).
\<close>

definition actionLine :: "env \<Rightarrow> bool \<Rightarrow> FileOperation \<Rightarrow> jsstring" where
  "actionLine env dryRun operation =
     dryRunPrefix dryRun
     @ (if kind operation = str ''create''
        then str ''Create file: '' @ urlToFilePath env (the (uri operation))
        else if kind operation = str ''delete''
        then str ''Delete file: '' @ urlToFilePath env (the (uri operation))
        else str ''Rename file: '' @ urlToFilePath env (the (oldUri operation))
             @ str '' -> '' @ urlToFilePath env (the (newUri operation)))"

definition callOf :: "env \<Rightarrow> FileOperation \<Rightarrow> fscall" where
  "callOf env operation =
     (if kind operation = str ''create''
      then WriteFile (urlToFilePath env (the (uri operation))) []
      else if kind operation = str ''delete''
      then DeleteFile (urlToFilePath env (the (uri operation)))
      else RenameFile (urlToFilePath env (the (oldUri operation)))
             (urlToFilePath env (the (newUri operation))))"

definition knownKind :: "FileOperation \<Rightarrow> bool" where
  "knownKind operation =
     (kind operation = str ''create'' \<or> kind operation = str ''delete''
      \<or> kind operation = str ''rename'')"

text \<open>
  A call fails on a filesystem, with the files as they are: there is no file to read, to
  delete or to rename, or the filesystem refuses the call.
\<close>

definition primitiveFails :: "'b filesystem \<Rightarrow> fscall \<Rightarrow> (jsstring \<rightharpoonup> 'b) \<Rightarrow> bool" where
  "primitiveFails fs call held =
     ((case call of
         ReadFile p \<Rightarrow> held p = None
       | WriteFile p content \<Rightarrow> False
       | DeleteFile p \<Rightarrow> held p = None
       | RenameFile oldPath newPath \<Rightarrow> held oldPath = None)
      \<or> callFails fs call held)"

text \<open>Positions in document order: by line, then by character.\<close>

definition posLe :: "Position \<Rightarrow> Position \<Rightarrow> bool" where
  "posLe p q = (line p < line q \<or> line p = line q \<and> character p \<le> character q)"

text \<open>
  A range is in bounds of a sequence of lines: its start is not after its end, both are on
  lines of the sequence, and neither is beyond the end of its line.
\<close>

definition inBounds :: "jsstring list \<Rightarrow> Range \<Rightarrow> bool" where
  "inBounds lines r =
     (posLe (start r) (finish r) \<and> line (finish r) < length lines
      \<and> character (start r) \<le> length (lines ! line (start r))
      \<and> character (finish r) \<le> length (lines ! line (finish r)))"

text \<open>Two ranges do not overlap: one ends where or before the other starts.\<close>

definition nonOverlapping :: "Range \<Rightarrow> Range \<Rightarrow> bool" where
  "nonOverlapping r r' = (posLe (finish r) (start r') \<or> posLe (finish r') (start r))"

fun pairwiseNonOverlapping :: "TextEdit list \<Rightarrow> bool" where
  "pairwiseNonOverlapping [] = True"
| "pairwiseNonOverlapping (e # es) =
     ((\<forall>e'\<in>set es. nonOverlapping (erange e) (erange e')) \<and> pairwiseNonOverlapping es)"

text \<open>
  A text as one sequence of code units, and a position in it as an offset: the offset of
  a position is the length of the text before it, and the position at an offset is found
  by counting the line breaks before the offset and the code units after the last of
  them.
\<close>

definition prefixAt :: "jsstring list \<Rightarrow> Position \<Rightarrow> jsstring" where
  "prefixAt lines p = joinLines (take (line p) lines @ [take (character p) (lines ! line p)])"

definition suffixAt :: "jsstring list \<Rightarrow> Position \<Rightarrow> jsstring" where
  "suffixAt lines p = joinLines (drop (character p) (lines ! line p) # drop (Suc (line p)) lines)"

definition offsetOf :: "jsstring list \<Rightarrow> Position \<Rightarrow> nat" where
  "offsetOf lines p = length (prefixAt lines p)"

definition positionAt :: "jsstring \<Rightarrow> nat \<Rightarrow> Position" where
  "positionAt text off =
     (let before = splitLines (take off text)
      in \<lparr>line = length before - 1, character = length (last before)\<rparr>)"

text \<open>
  What an edit asks for, read on the text as one sequence: the span from the offset of
  its start to the offset of its end is replaced by its new text. The text that a batch
  asks for is the original with the span of every edit replaced, in the order of
  application: latest start first.
\<close>

type_synonym span = "nat \<times> nat \<times> jsstring"

definition spanOf :: "jsstring list \<Rightarrow> TextEdit \<Rightarrow> span" where
  "spanOf lines edit =
     (offsetOf lines (start (erange edit)), offsetOf lines (finish (erange edit)), newText edit)"

fun replaceSpan :: "jsstring \<Rightarrow> span \<Rightarrow> jsstring" where
  "replaceSpan text (a, b, t) = take a text @ t @ drop b text"

definition replaceSpans :: "jsstring \<Rightarrow> span list \<Rightarrow> jsstring" where
  "replaceSpans text spans = foldl replaceSpan text spans"

definition postText :: "jsstring \<Rightarrow> TextEdit list \<Rightarrow> jsstring" where
  "postText original edits =
     replaceSpans original (map (spanOf (splitLines original)) (sortBy compareEdits edits))"

text \<open>
  The logical inverse of a batch: for every edit of the batch, in the order of
  application, the edit that replaces the new text of the edit, where it lies in the
  post-edit text, by the text that the edit has replaced. The new text of an edit lies
  in the post-edit text after what the edits applied after it (all of them before it in
  the text) have made of the text before it.
\<close>

fun inverseSpans :: "jsstring \<Rightarrow> span list \<Rightarrow> span list" where
  "inverseSpans text [] = []"
| "inverseSpans text ((a, b, t) # spans) =
     (let before = replaceSpans (take a text) spans
      in (length before, length before + length t, take (b - a) (drop a text))
         # inverseSpans (take a text) spans)"

fun editAt :: "jsstring \<Rightarrow> span \<Rightarrow> TextEdit" where
  "editAt text (a, b, t) =
     \<lparr>erange = \<lparr>start = positionAt text a, finish = positionAt text b\<rparr>, newText = t\<rparr>"

definition logicalInverse :: "jsstring \<Rightarrow> TextEdit list \<Rightarrow> jsstring \<Rightarrow> TextEdit list" where
  "logicalInverse original edits post =
     map (editAt post)
       (inverseSpans original
          (map (spanOf (splitLines original)) (sortBy compareEdits edits)))"

text \<open>
  Edits in the order of application are separated when each ends where or before the
  one applied before it starts; spans are separated, below a bound, in the same sense.
\<close>

fun separatedInOrder :: "TextEdit list \<Rightarrow> bool" where
  "separatedInOrder (e # e' # es) =
     (posLe (finish (erange e')) (start (erange e)) \<and> separatedInOrder (e' # es))"
| "separatedInOrder es = True"

fun separatedSpans :: "nat \<Rightarrow> span list \<Rightarrow> bool" where
  "separatedSpans n [] = True"
| "separatedSpans n ((a, b, t) # spans) = (a \<le> b \<and> b \<le> n \<and> separatedSpans a spans)"

text \<open>
  Lines agree with the original lines up to a position: the lines before the position
  and the part of its line before it are those of the original.
\<close>

definition agreeUpTo :: "jsstring list \<Rightarrow> jsstring list \<Rightarrow> Position \<Rightarrow> bool" where
  "agreeUpTo original lines p =
     (line p < length lines \<and> line p < length original
      \<and> take (line p) lines = take (line p) original
      \<and> character p \<le> length (original ! line p)
      \<and> take (character p) (lines ! line p) = take (character p) (original ! line p))"

text \<open>The text of a file, as the engine reads it.\<close>

definition textOf :: "'b filesystem \<Rightarrow> 'b world \<Rightarrow> jsstring \<Rightarrow> jsstring" where
  "textOf fs w p = decodeText fs (the (files w p))"

section \<open>Example inputs\<close>

definition mkEdit :: "nat \<Rightarrow> nat \<Rightarrow> nat \<Rightarrow> nat \<Rightarrow> string \<Rightarrow> TextEdit" where
  "mkEdit sl sc el ec t =
     \<lparr>erange = \<lparr>start = \<lparr>line = sl, character = sc\<rparr>,
                finish = \<lparr>line = el, character = ec\<rparr>\<rparr>,
      newText = str t\<rparr>"

definition worldWith :: "(jsstring \<times> jsstring) list \<Rightarrow> jsstring world" where
  "worldWith fs = \<lparr>files = map_of fs, logged = [], fscalls = []\<rparr>"

text \<open>A filesystem that refuses every call.\<close>

definition refusingFs :: "jsstring filesystem" where
  "refusingFs = memoryFs\<lparr>callFails := (\<lambda>call held. True)\<rparr>"

definition exampleEnv :: env where
  "exampleEnv = \<lparr>urlToFilePath = (\<lambda>u. u), relativeToCwd = (\<lambda>p. p)\<rparr>"

section \<open>The engine on the store of texts, unfolded\<close>

lemma readFile_memoryFs:
  "readFile memoryFs p w =
     (let w' = w\<lparr>fscalls := fscalls w @ [ReadFile p]\<rparr>
      in case files w p of
           None \<Rightarrow> (Inl FilesystemFailure, w')
         | Some content \<Rightarrow> (Inr content, w'))"
  by (simp add: readFile_def memoryFs_def Let_def split: option.splits)

lemma writeFile_memoryFs:
  "writeFile memoryFs p content w =
     (Inr (), w\<lparr>files := (files w)(p \<mapsto> content),
                fscalls := fscalls w @ [WriteFile p content]\<rparr>)"
  by (simp add: writeFile_def memoryFs_def Let_def)

lemma deleteFile_memoryFs:
  "deleteFile memoryFs p w =
     (case files w p of
        None \<Rightarrow> (Inl FilesystemFailure, w\<lparr>fscalls := fscalls w @ [DeleteFile p]\<rparr>)
      | Some content \<Rightarrow>
          (Inr (), w\<lparr>files := (files w)(p := None),
                     fscalls := fscalls w @ [DeleteFile p]\<rparr>))"
  by (simp add: deleteFile_def memoryFs_def Let_def split: option.splits)

lemma renameFile_memoryFs:
  "renameFile memoryFs oldPath newPath w =
     (case files w oldPath of
        None \<Rightarrow> (Inl FilesystemFailure, w\<lparr>fscalls := fscalls w @ [RenameFile oldPath newPath]\<rparr>)
      | Some content \<Rightarrow>
          (Inr (), w\<lparr>files := ((files w)(oldPath := None))(newPath \<mapsto> content),
                     fscalls := fscalls w @ [RenameFile oldPath newPath]\<rparr>))"
  by (simp add: renameFile_def memoryFs_def Let_def split: option.splits)

lemma applyTextEdits_unfold:
  "applyTextEdits filePath edits dryRun w =
     (if length edits = 0 then (Inr 0, w)
      else
        (let w1 = log (dryRunPrefix dryRun @ str ''Applying '' @ numberToString (length edits)
                       @ str '' edits to '' @ filePath) w;
             sortedEdits = sortBy compareEdits edits
         in if dryRun then
              (Inr (length edits), logAll (map dryRunLine (rev sortedEdits)) w1)
            else
              (case readFile memoryFs filePath w1 of
                 (Inl err, w2) \<Rightarrow> (Inl err, w2)
               | (Inr content, w2) \<Rightarrow>
                   (case applyEdits (splitLines content) sortedEdits of
                      Inl err \<Rightarrow> (Inl err, w2)
                    | Inr lines' \<Rightarrow>
                        (case writeFile memoryFs filePath (joinLines lines') w2 of
                           (Inl err, w3) \<Rightarrow> (Inl err, w3)
                         | (Inr u, w3) \<Rightarrow> (Inr (length edits), w3))))))"
  by (simp add: applyTextEdits_def applyTextEditsOn_def)

lemma applyFileOperation_unfold:
  "applyFileOperation env operation dryRun w =
     (if kind operation = str ''create'' then
        (if falsy (uri operation) then (Inl CreateFileMissingUri, w)
         else
           (let filePath = urlToFilePath env (the (uri operation));
                w1 = log (dryRunPrefix dryRun @ str ''Create file: '' @ filePath) w
            in if \<not> dryRun then writeFile memoryFs filePath [] w1 else (Inr (), w1)))
      else if kind operation = str ''delete'' then
        (if falsy (uri operation) then (Inl DeleteFileMissingUri, w)
         else
           (let filePath = urlToFilePath env (the (uri operation));
                w1 = log (dryRunPrefix dryRun @ str ''Delete file: '' @ filePath) w
            in if \<not> dryRun then deleteFile memoryFs filePath w1 else (Inr (), w1)))
      else if kind operation = str ''rename'' then
        (if falsy (oldUri operation) \<or> falsy (newUri operation)
         then (Inl RenameFileMissingUri, w)
         else
           (let oldPath = urlToFilePath env (the (oldUri operation));
                newPath = urlToFilePath env (the (newUri operation));
                w1 = log (dryRunPrefix dryRun @ str ''Rename file: '' @ oldPath
                          @ str '' -> '' @ newPath) w
            in if \<not> dryRun then renameFile memoryFs oldPath newPath w1 else (Inr (), w1)))
      else (Inr (), w))"
  by (simp add: applyFileOperation_def applyFileOperationOn_def)

lemma applyDocumentChanges_simps [simp]:
  "applyDocumentChanges env [] dryRun results w = (Inr results, w)"
  "applyDocumentChanges env (FileOp operation # rest) dryRun results w =
     (case applyFileOperation env operation dryRun w of
        (Inl err, w') \<Rightarrow> (Inl err, w')
      | (Inr u, w') \<Rightarrow> applyDocumentChanges env rest dryRun results w')"
  "applyDocumentChanges env (TextDocumentEdit u edits # rest) dryRun results w =
     (let filePath = urlToFilePath env u
      in case applyTextEdits filePath edits dryRun w of
           (Inl err, w') \<Rightarrow> (Inl err, w')
         | (Inr applied, w') \<Rightarrow>
             applyDocumentChanges env rest dryRun
               (results @ [\<lparr>relFile = relativeToCwd env filePath, changes = applied\<rparr>]) w')"
  unfolding applyDocumentChanges_def applyFileOperation_def applyTextEdits_def
  by simp_all

lemma applyLegacyChanges_simps [simp]:
  "applyLegacyChanges env [] dryRun results w = (Inr results, w)"
  "applyLegacyChanges env ((u, edits) # rest) dryRun results w =
     (let filePath = urlToFilePath env u
      in case applyTextEdits filePath edits dryRun w of
           (Inl err, w') \<Rightarrow> (Inl err, w')
         | (Inr applied, w') \<Rightarrow>
             applyLegacyChanges env rest dryRun
               (results @ [\<lparr>relFile = relativeToCwd env filePath, changes = applied\<rparr>]) w')"
  unfolding applyLegacyChanges_def applyTextEdits_def
  by simp_all

lemma applyWorkspaceEdit_unfold:
  "applyWorkspaceEdit env edit dryRun w =
     (case documentChanges edit of
        Some dcs \<Rightarrow> applyDocumentChanges env dcs dryRun [] w
      | None \<Rightarrow>
          (case legacyChanges edit of
             Some cs \<Rightarrow> applyLegacyChanges env cs dryRun [] w
           | None \<Rightarrow> (Inr [], w)))"
  unfolding applyWorkspaceEdit_def applyDocumentChanges_def applyLegacyChanges_def
  by (simp add: applyWorkspaceEditOn_def)


section \<open>The plan: which entries are processed, and what is returned\<close>

lemma applyTextEditsOn_count:
  "applyTextEditsOn fs p edits d w = (Inr n, w') \<Longrightarrow> n = length edits"
  by (auto simp: applyTextEditsOn_def Let_def split: if_splits prod.splits sum.splits)

lemma applyDocumentChangesOn_append:
  "applyDocumentChangesOn fs env (pre @ post) d rs w =
     (case applyDocumentChangesOn fs env pre d rs w of
        (Inl err, w') \<Rightarrow> (Inl err, w')
      | (Inr rs', w') \<Rightarrow> applyDocumentChangesOn fs env post d rs' w')"
  by (induction fs env pre d rs w rule: applyDocumentChangesOn.induct)
     (auto simp: Let_def split: prod.splits sum.splits)

lemma applyDocumentChangesOn_results:
  "fst (applyDocumentChangesOn fs env dcs d rs w) = Inr res \<Longrightarrow>
     res = rs @ map (resultOf env) (concat (map batchOf dcs))"
proof (induction fs env dcs d rs w rule: applyDocumentChangesOn.induct)
  case (1 fs env dryRun results w)
  then show ?case by simp
next
  case (2 fs env operation rest dryRun results w)
  then show ?case by (auto split: prod.splits sum.splits)
next
  case (3 fs env u edits rest dryRun results w)
  then show ?case
    by (auto simp: resultOf_def Let_def split: prod.splits sum.splits
             dest!: applyTextEditsOn_count)
qed

lemma applyLegacyChangesOn_results:
  "fst (applyLegacyChangesOn fs env cs d rs w) = Inr res \<Longrightarrow>
     res = rs @ map (resultOf env) cs"
proof (induction fs env cs d rs w rule: applyLegacyChangesOn.induct)
  case (1 fs env dryRun results w)
  then show ?case by simp
next
  case (2 fs env u edits rest dryRun results w)
  then show ?case
    by (auto simp: resultOf_def Let_def split: prod.splits sum.splits
             dest!: applyTextEditsOn_count)
qed

lemma applyWorkspaceEditOn_results:
  "fst (applyWorkspaceEditOn fs env edit d w) = Inr res \<Longrightarrow>
     res = map (resultOf env) (textEditBatches edit)"
  by (auto simp: applyWorkspaceEditOn_def textEditBatches_def split: option.splits
           dest: applyDocumentChangesOn_results applyLegacyChangesOn_results)

lemma applyTextEdits_count:
  "applyTextEdits p edits d w = (Inr n, w') \<Longrightarrow> n = length edits"
  unfolding applyTextEdits_def by (rule applyTextEditsOn_count)

lemma applyDocumentChanges_append:
  "applyDocumentChanges env (pre @ post) d rs w =
     (case applyDocumentChanges env pre d rs w of
        (Inl err, w') \<Rightarrow> (Inl err, w')
      | (Inr rs', w') \<Rightarrow> applyDocumentChanges env post d rs' w')"
  unfolding applyDocumentChanges_def by (rule applyDocumentChangesOn_append)

lemma applyWorkspaceEdit_results:
  "fst (applyWorkspaceEdit env edit d w) = Inr res \<Longrightarrow>
     res = map (resultOf env) (textEditBatches edit)"
  unfolding applyWorkspaceEdit_def by (rule applyWorkspaceEditOn_results)

text \<open>
  Claim C4. When a workspace edit carries the document-changes form, \<open>applyWorkspaceEdit\<close>
  runs exactly the loop over the document changes, and its outcome (results, files, log,
  filesystem calls) is the one of the same edit without the legacy mapping, whatever the
  legacy mapping holds; the text of \<open>formatWorkspaceEdit\<close> ignores the legacy mapping
  likewise. An empty list of document changes is present too, and takes precedence.
\<close>

theorem documentChanges_precedence:
  "applyWorkspaceEdit env \<lparr>documentChanges = Some dcs, legacyChanges = legacy\<rparr> dryRun w
     = applyDocumentChanges env dcs dryRun [] w \<and>
   applyWorkspaceEdit env \<lparr>documentChanges = Some dcs, legacyChanges = legacy\<rparr> dryRun w
     = applyWorkspaceEdit env \<lparr>documentChanges = Some dcs, legacyChanges = None\<rparr> dryRun w \<and>
   formatWorkspaceEdit env \<lparr>documentChanges = Some dcs, legacyChanges = legacy\<rparr>
     = formatWorkspaceEdit env \<lparr>documentChanges = Some dcs, legacyChanges = None\<rparr>"
  by (simp add: applyWorkspaceEdit_unfold formatWorkspaceEdit_def)

theorem documentChanges_precedence_witness:
  "applyWorkspaceEdit exampleEnv
     \<lparr>documentChanges = Some [],
      legacyChanges = Some [(str ''a.ts'', [mkEdit 0 0 0 1 ''X''])]\<rparr>
     False (worldWith [(str ''a.ts'', str ''abc'')])
   = (Inr [], worldWith [(str ''a.ts'', str ''abc'')])"
  using documentChanges_precedence
    [of exampleEnv "[]" "Some [(str ''a.ts'', [mkEdit 0 0 0 1 ''X''])]" False
        "worldWith [(str ''a.ts'', str ''abc'')]"]
  by simp

text \<open>
  Claim C7, as amended. When \<open>applyWorkspaceEdit\<close> returns, the returned sequence has one
  entry for every text-edit batch of the plan, in plan order: the relative path of the
  batch's file and the number of its edits. File operations contribute no entry, and a
  file that two batches edit has two entries.
\<close>

theorem results_per_text_edit_batch:
  "fst (applyWorkspaceEdit env edit dryRun w) = Inr results \<Longrightarrow>
     results = map (\<lambda>b. \<lparr>relFile = relativeToCwd env (urlToFilePath env (fst b)),
                         changes = length (snd b)\<rparr>) (textEditBatches edit) \<and>
     length results = length (textEditBatches edit)"
  using applyWorkspaceEdit_results [of env edit dryRun w results]
  by (simp add: resultOf_def [abs_def])

theorem results_per_text_edit_batch_witness:
  "fst (applyWorkspaceEdit exampleEnv
     \<lparr>documentChanges =
        Some [FileOp \<lparr>kind = str ''create'', uri = Some (str ''b.ts''),
                      oldUri = None, newUri = None\<rparr>,
              TextDocumentEdit (str ''a.ts'') [mkEdit 0 0 0 1 ''X'', mkEdit 0 2 0 3 ''Y'']],
      legacyChanges = None\<rparr> True (worldWith []))
   = Inr [\<lparr>relFile = str ''a.ts'', changes = 2\<rparr>]"
proof -
  let ?edit = "\<lparr>documentChanges =
        Some [FileOp \<lparr>kind = str ''create'', uri = Some (str ''b.ts''),
                      oldUri = None, newUri = None\<rparr>,
              TextDocumentEdit (str ''a.ts'') [mkEdit 0 0 0 1 ''X'', mkEdit 0 2 0 3 ''Y'']],
      legacyChanges = None\<rparr>"
  have "\<exists>results. fst (applyWorkspaceEdit exampleEnv ?edit True (worldWith [])) = Inr results"
    by (simp add: applyWorkspaceEdit_unfold applyFileOperation_unfold applyTextEdits_unfold falsy_def Let_def
          str_def)
  then obtain results where r: "fst (applyWorkspaceEdit exampleEnv ?edit True (worldWith [])) = Inr results"
    by blast
  from results_per_text_edit_batch [OF r] r show ?thesis
    by (simp add: textEditBatches_def exampleEnv_def)
qed

text \<open>
  The claim as stated fails: creating a file acts on it, and the returned sequence is
  empty.
\<close>

theorem results_counterexample:
  "applyWorkspaceEdit exampleEnv
     \<lparr>documentChanges =
        Some [FileOp \<lparr>kind = str ''create'', uri = Some (str ''a.ts''),
                      oldUri = None, newUri = None\<rparr>],
      legacyChanges = None\<rparr> False (worldWith [])
   = (Inr [],
      \<lparr>files = [str ''a.ts'' \<mapsto> []], logged = [str ''Create file: a.ts''],
       fscalls = [WriteFile (str ''a.ts'') []]\<rparr>)"
  by (simp add: applyWorkspaceEdit_unfold applyFileOperation_unfold exampleEnv_def worldWith_def
        falsy_def writeFile_memoryFs log_def dryRunPrefix_def str_def Let_def)

section \<open>Dry runs\<close>

lemma logAll_frame [simp]:
  "files (logAll ms w) = files w" "fscalls (logAll ms w) = fscalls w"
  by (induction ms arbitrary: w) (simp_all add: log_def)

lemma logAll_logged [simp]: "logged (logAll ms w) = logged w @ ms"
  by (induction ms arbitrary: w) (simp_all add: log_def)

lemma applyTextEditsOn_dryRun_frame:
  "files (snd (applyTextEditsOn fs p edits True w)) = files w \<and>
   fscalls (snd (applyTextEditsOn fs p edits True w)) = fscalls w"
  by (simp add: applyTextEditsOn_def Let_def log_def)

lemma applyFileOperationOn_dryRun_frame:
  "files (snd (applyFileOperationOn fs env operation True w)) = files w \<and>
   fscalls (snd (applyFileOperationOn fs env operation True w)) = fscalls w"
  by (simp add: applyFileOperationOn_def Let_def log_def)

lemma applyDocumentChangesOn_dryRun_frame:
  "files (snd (applyDocumentChangesOn fs env dcs True rs w)) = files w \<and>
   fscalls (snd (applyDocumentChangesOn fs env dcs True rs w)) = fscalls w"
proof (induction fs env dcs "True" rs w rule: applyDocumentChangesOn.induct)
  case (1 fs env results w)
  then show ?case by simp
next
  case (2 fs env operation rest results w)
  then show ?case
    using applyFileOperationOn_dryRun_frame [of fs env operation w]
    by (auto split: prod.splits sum.splits)
next
  case (3 fs env u edits rest results w)
  then show ?case
    using applyTextEditsOn_dryRun_frame [of fs "urlToFilePath env u" edits w]
    by (auto simp: Let_def split: prod.splits sum.splits)
qed

lemma applyLegacyChangesOn_dryRun_frame:
  "files (snd (applyLegacyChangesOn fs env cs True rs w)) = files w \<and>
   fscalls (snd (applyLegacyChangesOn fs env cs True rs w)) = fscalls w"
proof (induction fs env cs "True" rs w rule: applyLegacyChangesOn.induct)
  case (1 fs env results w)
  then show ?case by simp
next
  case (2 fs env u edits rest results w)
  then show ?case
    using applyTextEditsOn_dryRun_frame [of fs "urlToFilePath env u" edits w]
    by (auto simp: Let_def split: prod.splits sum.splits)
qed

lemma applyDocumentChanges_dryRun_frame:
  "files (snd (applyDocumentChanges env dcs True rs w)) = files w \<and>
   fscalls (snd (applyDocumentChanges env dcs True rs w)) = fscalls w"
  unfolding applyDocumentChanges_def by (rule applyDocumentChangesOn_dryRun_frame)

lemma applyLegacyChanges_dryRun_frame:
  "files (snd (applyLegacyChanges env cs True rs w)) = files w \<and>
   fscalls (snd (applyLegacyChanges env cs True rs w)) = fscalls w"
  unfolding applyLegacyChanges_def by (rule applyLegacyChangesOn_dryRun_frame)



section \<open>File operations\<close>

lemma kinds_distinct [simp]:
  "str ''create'' \<noteq> str ''delete''" "str ''create'' \<noteq> str ''rename''"
  "str ''delete'' \<noteq> str ''rename''" "str ''delete'' \<noteq> str ''create''"
  "str ''rename'' \<noteq> str ''create''" "str ''rename'' \<noteq> str ''delete''"
  by (simp_all add: str_def)

lemma primitive_results:
  "fst (writeFile fs p content w) =
     (if primitiveFails fs (WriteFile p content) (files w) then Inl FilesystemFailure else Inr ())"
  "fst (deleteFile fs p w) =
     (if primitiveFails fs (DeleteFile p) (files w) then Inl FilesystemFailure else Inr ())"
  "fst (renameFile fs oldPath newPath w) =
     (if primitiveFails fs (RenameFile oldPath newPath) (files w) then Inl FilesystemFailure
      else Inr ())"
  by (simp_all add: writeFile_def deleteFile_def renameFile_def primitiveFails_def Let_def
        split: option.splits)

lemma primitive_traces:
  "logged (snd (writeFile fs p content w)) = logged w"
  "fscalls (snd (writeFile fs p content w)) = fscalls w @ [WriteFile p content]"
  "logged (snd (deleteFile fs p w)) = logged w"
  "fscalls (snd (deleteFile fs p w)) = fscalls w @ [DeleteFile p]"
  "logged (snd (renameFile fs oldPath newPath w)) = logged w"
  "fscalls (snd (renameFile fs oldPath newPath w)) = fscalls w @ [RenameFile oldPath newPath]"
  by (simp_all add: writeFile_def deleteFile_def renameFile_def Let_def split: option.splits)

lemma applyFileOperationOn_missing:
  "missingLocation operation \<Longrightarrow>
     applyFileOperationOn fs env operation dryRun w = (Inl (missingLocationError operation), w)"
  by (auto simp: missingLocation_def missingLocationError_def applyFileOperationOn_def)

lemma applyFileOperationOn_dryRun:
  "\<not> missingLocation operation \<Longrightarrow> knownKind operation \<Longrightarrow>
     applyFileOperationOn fs env operation True w
       = (Inr (), log (actionLine env True operation) w)"
  by (auto simp: missingLocation_def knownKind_def actionLine_def applyFileOperationOn_def)

lemma applyFileOperationOn_call:
  assumes "\<not> missingLocation operation" and "knownKind operation"
  shows "fst (applyFileOperationOn fs env operation False w) =
       (if primitiveFails fs (callOf env operation) (files w) then Inl FilesystemFailure
        else Inr ())"
    and "logged (snd (applyFileOperationOn fs env operation False w))
           = logged w @ [actionLine env False operation]"
    and "fscalls (snd (applyFileOperationOn fs env operation False w))
           = fscalls w @ [callOf env operation]"
  using assms
  by (auto simp: missingLocation_def knownKind_def actionLine_def callOf_def
        applyFileOperationOn_def Let_def primitive_results primitive_traces log_def)

lemma applyFileOperationOn_unknown_kind:
  "\<not> knownKind operation \<Longrightarrow> applyFileOperationOn fs env operation dryRun w = (Inr (), w)"
  by (simp add: knownKind_def applyFileOperationOn_def)

lemma missingLocation_knownKind: "missingLocation operation \<Longrightarrow> knownKind operation"
  by (auto simp: missingLocation_def knownKind_def)

lemma applyFileOperationOn_fails_iff:
  "(\<exists>err. fst (applyFileOperationOn fs env operation dryRun w) = Inl err) \<longleftrightarrow>
     missingLocation operation
     \<or> knownKind operation \<and> \<not> dryRun
       \<and> primitiveFails fs (callOf env operation) (files w)"
proof (cases "missingLocation operation")
  case True
  then show ?thesis
    by (simp add: applyFileOperationOn_missing)
next
  case notMissing: False
  show ?thesis
  proof (cases "knownKind operation")
    case False
    with notMissing show ?thesis
      by (simp add: applyFileOperationOn_unknown_kind)
  next
    case True
    with notMissing show ?thesis
      by (cases dryRun) (simp_all add: applyFileOperationOn_dryRun applyFileOperationOn_call)
  qed
qed

lemma applyFileOperationOn_own_error:
  assumes "fst (applyFileOperationOn fs env operation dryRun w)
             \<in> {Inl CreateFileMissingUri, Inl DeleteFileMissingUri, Inl RenameFileMissingUri}"
  shows "missingLocation operation"
proof (rule ccontr)
  assume notMissing: "\<not> missingLocation operation"
  show False
  proof (cases "knownKind operation")
    case False
    with assms show False
      by (simp add: applyFileOperationOn_unknown_kind)
  next
    case True
    with notMissing assms show False
      by (cases dryRun)
         (auto simp: applyFileOperationOn_dryRun applyFileOperationOn_call split: if_splits)
  qed
qed

lemma applyFileOperationOn_other_error:
  assumes "\<not> missingLocation operation"
    and "fst (applyFileOperationOn fs env operation dryRun w) = Inl err"
  shows "err = FilesystemFailure \<and> \<not> dryRun \<and>
     logged (snd (applyFileOperationOn fs env operation dryRun w))
       = logged w @ [actionLine env dryRun operation] \<and>
     fscalls (snd (applyFileOperationOn fs env operation dryRun w))
       = fscalls w @ [callOf env operation]"
proof -
  from assms have k: "knownKind operation" and d: "\<not> dryRun"
    using applyFileOperationOn_fails_iff [of fs env operation dryRun w] by auto
  from assms(1) k d assms(2) show ?thesis
    by (auto simp: applyFileOperationOn_call split: if_splits)
qed

lemma applyDocumentChangesOn_FileOp_fail:
  "fst (applyFileOperationOn fs env operation dryRun w) = Inl err \<Longrightarrow>
     applyDocumentChangesOn fs env (FileOp operation # rest) dryRun rs w
       = (Inl err, snd (applyFileOperationOn fs env operation dryRun w))"
  by (auto split: prod.splits sum.splits)

text \<open>
  Claim C6, as amended. On every filesystem, \<open>applyFileOperation\<close> fails with an error of
  its own exactly when the operation lacks a location it needs (a create or delete its
  target, a rename its source or its target), and then before anything is logged or
  done: the world is unchanged. Its only other failure is the failure of the call it
  makes to the filesystem outside a dry run (the write of a create, the delete, the
  rename): then the action line has been logged and the call has been made. In a dry run
  it fails only for a missing location. No failure is caught: when the entries before
  the operation have succeeded, \<open>applyWorkspaceEdit\<close> ends with the error of the
  operation, in the world the operation left, and processes no later entry.
\<close>

theorem applyFileOperation_failures:
  "(missingLocation operation \<longrightarrow>
      applyFileOperationOn fs env operation dryRun w
        = (Inl (missingLocationError operation), w)) \<and>
   (fst (applyFileOperationOn fs env operation dryRun w)
      \<in> {Inl CreateFileMissingUri, Inl DeleteFileMissingUri, Inl RenameFileMissingUri}
    \<longrightarrow> missingLocation operation) \<and>
   ((\<exists>err. fst (applyFileOperationOn fs env operation dryRun w) = Inl err) \<longleftrightarrow>
      missingLocation operation
      \<or> knownKind operation \<and> \<not> dryRun
        \<and> primitiveFails fs (callOf env operation) (files w)) \<and>
   (\<forall>err. \<not> missingLocation operation
      \<and> fst (applyFileOperationOn fs env operation dryRun w) = Inl err \<longrightarrow>
      err = FilesystemFailure \<and> \<not> dryRun \<and>
      logged (snd (applyFileOperationOn fs env operation dryRun w))
        = logged w @ [actionLine env dryRun operation] \<and>
      fscalls (snd (applyFileOperationOn fs env operation dryRun w))
        = fscalls w @ [callOf env operation]) \<and>
   (\<forall>err rs w0 pre post legacy.
      applyDocumentChangesOn fs env pre dryRun [] w0 = (Inr rs, w) \<and>
      fst (applyFileOperationOn fs env operation dryRun w) = Inl err \<longrightarrow>
      applyWorkspaceEditOn fs env
        \<lparr>documentChanges = Some (pre @ FileOp operation # post), legacyChanges = legacy\<rparr>
        dryRun w0
        = (Inl err, snd (applyFileOperationOn fs env operation dryRun w)))"
proof (intro conjI allI impI)
  assume "missingLocation operation"
  then show "applyFileOperationOn fs env operation dryRun w
        = (Inl (missingLocationError operation), w)"
    by (rule applyFileOperationOn_missing)
next
  assume "fst (applyFileOperationOn fs env operation dryRun w)
      \<in> {Inl CreateFileMissingUri, Inl DeleteFileMissingUri, Inl RenameFileMissingUri}"
  then show "missingLocation operation"
    by (rule applyFileOperationOn_own_error)
next
  show "(\<exists>err. fst (applyFileOperationOn fs env operation dryRun w) = Inl err) \<longleftrightarrow>
      missingLocation operation
      \<or> knownKind operation \<and> \<not> dryRun
        \<and> primitiveFails fs (callOf env operation) (files w)"
    by (rule applyFileOperationOn_fails_iff)
next
  fix err
  assume a: "\<not> missingLocation operation
      \<and> fst (applyFileOperationOn fs env operation dryRun w) = Inl err"
  then have r: "err = FilesystemFailure \<and> \<not> dryRun \<and>
     logged (snd (applyFileOperationOn fs env operation dryRun w))
       = logged w @ [actionLine env dryRun operation] \<and>
     fscalls (snd (applyFileOperationOn fs env operation dryRun w))
       = fscalls w @ [callOf env operation]"
    by (intro applyFileOperationOn_other_error) simp_all
  from r show "err = FilesystemFailure" by simp
  from r show "\<not> dryRun" by simp
  from r show "logged (snd (applyFileOperationOn fs env operation dryRun w))
        = logged w @ [actionLine env dryRun operation]" by blast
  from r show "fscalls (snd (applyFileOperationOn fs env operation dryRun w))
        = fscalls w @ [callOf env operation]" by blast
next
  fix err rs w0 pre post legacy
  assume a: "applyDocumentChangesOn fs env pre dryRun [] w0 = (Inr rs, w) \<and>
      fst (applyFileOperationOn fs env operation dryRun w) = Inl err"
  then show "applyWorkspaceEditOn fs env
        \<lparr>documentChanges = Some (pre @ FileOp operation # post), legacyChanges = legacy\<rparr>
        dryRun w0
        = (Inl err, snd (applyFileOperationOn fs env operation dryRun w))"
    by (simp add: applyWorkspaceEditOn_def applyDocumentChangesOn_append
          applyDocumentChangesOn_FileOp_fail del: applyDocumentChangesOn.simps)
qed

theorem applyFileOperation_failures_witness:
  "applyWorkspaceEdit exampleEnv
     \<lparr>documentChanges =
        Some [TextDocumentEdit (str ''a.ts'') [mkEdit 0 0 0 1 ''X''],
              FileOp \<lparr>kind = str ''delete'', uri = None, oldUri = None, newUri = None\<rparr>,
              FileOp \<lparr>kind = str ''create'', uri = Some (str ''b.ts''),
                      oldUri = None, newUri = None\<rparr>],
      legacyChanges = None\<rparr>
     False (worldWith [(str ''a.ts'', str ''abc'')])
   = (Inl DeleteFileMissingUri,
      \<lparr>files = [str ''a.ts'' \<mapsto> str ''Xbc''],
       logged = [str ''Applying 1 edits to a.ts''],
       fscalls = [ReadFile (str ''a.ts''), WriteFile (str ''a.ts'') (str ''Xbc'')]\<rparr>) \<and>
   fst (applyFileOperationOn refusingFs exampleEnv
          \<lparr>kind = str ''create'', uri = Some (str ''b.ts''), oldUri = None, newUri = None\<rparr>
          False (worldWith []))
     = Inl FilesystemFailure \<and>
   logged (snd (applyFileOperationOn refusingFs exampleEnv
          \<lparr>kind = str ''create'', uri = Some (str ''b.ts''), oldUri = None, newUri = None\<rparr>
          False (worldWith [])))
     = [str ''Create file: b.ts''] \<and>
   fscalls (snd (applyFileOperationOn refusingFs exampleEnv
          \<lparr>kind = str ''create'', uri = Some (str ''b.ts''), oldUri = None, newUri = None\<rparr>
          False (worldWith [])))
     = [WriteFile (str ''b.ts'') []]"
proof (intro conjI)
  let ?op = "\<lparr>kind = str ''delete'', uri = None, oldUri = None, newUri = None\<rparr>"
  let ?before = "worldWith [(str ''a.ts'', str ''abc'')]"
  let ?after = "\<lparr>files = [str ''a.ts'' \<mapsto> str ''Xbc''],
       logged = [str ''Applying 1 edits to a.ts''],
       fscalls = [ReadFile (str ''a.ts''), WriteFile (str ''a.ts'') (str ''Xbc'')]\<rparr>"
  have m: "missingLocation ?op"
    by (simp add: missingLocation_def falsy_def)
  have pre: "applyDocumentChangesOn memoryFs exampleEnv
      [TextDocumentEdit (str ''a.ts'') [mkEdit 0 0 0 1 ''X'']] False [] ?before
      = (Inr [\<lparr>relFile = str ''a.ts'', changes = 1\<rparr>], ?after)"
    by (simp add: exampleEnv_def worldWith_def applyTextEditsOn_def Let_def log_def
          readFile_memoryFs writeFile_memoryFs sortBy_def applyEdit_def mkEdit_def
          dryRunPrefix_def str_def numberToString.simps)
  note t = applyFileOperation_failures
    [where operation = ?op and fs = memoryFs and env = exampleEnv and dryRun = False
       and w = ?after]
  from t [THEN conjunct1, rule_format, OF m]
  have r: "applyFileOperationOn memoryFs exampleEnv ?op False ?after
      = (Inl DeleteFileMissingUri, ?after)"
    by (simp add: missingLocationError_def str_def)
  then have err: "fst (applyFileOperationOn memoryFs exampleEnv ?op False ?after)
      = Inl DeleteFileMissingUri"
    by simp
  note run = t [THEN conjunct2, THEN conjunct2, THEN conjunct2, THEN conjunct2, rule_format,
    OF conjI [OF pre err]]
  have "applyWorkspaceEditOn memoryFs exampleEnv
     \<lparr>documentChanges =
        Some ([TextDocumentEdit (str ''a.ts'') [mkEdit 0 0 0 1 ''X'']] @ FileOp ?op #
              [FileOp \<lparr>kind = str ''create'', uri = Some (str ''b.ts''),
                      oldUri = None, newUri = None\<rparr>]),
      legacyChanges = None\<rparr> False ?before
     = (Inl DeleteFileMissingUri, snd (applyFileOperationOn memoryFs exampleEnv ?op False ?after))"
    by (rule run)
  with r show "applyWorkspaceEdit exampleEnv
     \<lparr>documentChanges =
        Some [TextDocumentEdit (str ''a.ts'') [mkEdit 0 0 0 1 ''X''],
              FileOp ?op,
              FileOp \<lparr>kind = str ''create'', uri = Some (str ''b.ts''),
                      oldUri = None, newUri = None\<rparr>],
      legacyChanges = None\<rparr>
     False ?before = (Inl DeleteFileMissingUri, ?after)"
    by (simp add: applyWorkspaceEdit_def)
next
  let ?op = "\<lparr>kind = str ''create'', uri = Some (str ''b.ts''), oldUri = None, newUri = None\<rparr>"
  let ?r = "applyFileOperationOn refusingFs exampleEnv ?op False (worldWith [])"
  have nm: "\<not> missingLocation ?op"
    by (simp add: missingLocation_def falsy_def str_def)
  have k: "knownKind ?op"
    by (simp add: knownKind_def)
  have pf: "primitiveFails refusingFs (callOf exampleEnv ?op) (files (worldWith []))"
    by (simp add: primitiveFails_def refusingFs_def)
  note t = applyFileOperation_failures
    [where operation = ?op and fs = refusingFs and env = exampleEnv and dryRun = False
       and w = "worldWith []"]
  have nd: "\<not> False"
    by simp
  from t [THEN conjunct2, THEN conjunct2, THEN conjunct1, THEN iffD2,
      OF disjI2 [OF conjI [OF k conjI [OF nd pf]]]]
  obtain err where e: "fst ?r = Inl err" ..
  note other = t [THEN conjunct2, THEN conjunct2, THEN conjunct2, THEN conjunct1, rule_format,
    OF conjI [OF nm e]]
  from other have f: "err = FilesystemFailure"
    by (rule conjunct1)
  from other have l: "logged (snd ?r) = logged (worldWith []) @ [actionLine exampleEnv False ?op]"
    by (elim conjE)
  from other have c: "fscalls (snd ?r) = fscalls (worldWith []) @ [callOf exampleEnv ?op]"
    by (elim conjE)
  from e f show "fst ?r = Inl FilesystemFailure"
    by simp
  from l show "logged (snd ?r) = [str ''Create file: b.ts'']"
    by (simp add: worldWith_def actionLine_def exampleEnv_def dryRunPrefix_def str_def)
  from c show "fscalls (snd ?r) = [WriteFile (str ''b.ts'') []]"
    by (simp add: worldWith_def callOf_def exampleEnv_def str_def)
qed

text \<open>
  The claim as stated fails: a rename with both locations, of a file that does not
  exist, fails outside a dry run, after the action line is logged and the filesystem is
  called.
\<close>

theorem applyFileOperation_failures_counterexample:
  "\<not> missingLocation \<lparr>kind = str ''rename'', uri = None,
                       oldUri = Some (str ''a.ts''), newUri = Some (str ''b.ts'')\<rparr> \<and>
   applyFileOperation exampleEnv
     \<lparr>kind = str ''rename'', uri = None,
      oldUri = Some (str ''a.ts''), newUri = Some (str ''b.ts'')\<rparr>
     False (worldWith [])
   = (Inl FilesystemFailure,
      \<lparr>files = Map.empty, logged = [str ''Rename file: a.ts -> b.ts''],
       fscalls = [RenameFile (str ''a.ts'') (str ''b.ts'')]\<rparr>)"
  by (simp add: missingLocation_def falsy_def applyFileOperation_unfold exampleEnv_def
        worldWith_def renameFile_memoryFs log_def dryRunPrefix_def str_def Let_def)

lemma applyFileOperation_unknown_kind:
  "kind operation \<noteq> str ''create'' \<Longrightarrow> kind operation \<noteq> str ''delete'' \<Longrightarrow>
   kind operation \<noteq> str ''rename'' \<Longrightarrow>
     applyFileOperation env operation dryRun w = (Inr (), w)"
  by (simp add: applyFileOperation_unfold)

text \<open>
  Claim C10. A document-changes entry with a \<open>kind\<close> that is none of \<open>create\<close>,
  \<open>rename\<close> and \<open>delete\<close> is a file operation that does nothing: \<open>applyFileOperation\<close>
  returns without an error and leaves the files, the log and the record of filesystem
  calls as they were, and \<open>applyWorkspaceEdit\<close> gives the outcome, results included, of
  the same workspace edit without the entry.
\<close>

theorem unknown_kind_ignored:
  assumes "kind operation \<noteq> str ''create''" and "kind operation \<noteq> str ''delete''"
    and "kind operation \<noteq> str ''rename''"
  shows "applyFileOperation env operation dryRun w = (Inr (), w) \<and>
     applyWorkspaceEdit env
       \<lparr>documentChanges = Some (pre @ FileOp operation # post), legacyChanges = legacy\<rparr>
       dryRun w
     = applyWorkspaceEdit env
       \<lparr>documentChanges = Some (pre @ post), legacyChanges = legacy\<rparr> dryRun w"
  using assms
  by (simp add: applyFileOperation_unknown_kind applyWorkspaceEdit_unfold
        applyDocumentChanges_append split: prod.splits sum.splits)

theorem unknown_kind_ignored_witness:
  "applyWorkspaceEdit exampleEnv
     \<lparr>documentChanges =
        Some [FileOp \<lparr>kind = str ''move'', uri = Some (str ''a.ts''),
                      oldUri = None, newUri = None\<rparr>],
      legacyChanges = None\<rparr> False (worldWith [(str ''a.ts'', str ''abc'')])
   = (Inr [], worldWith [(str ''a.ts'', str ''abc'')])"
proof -
  let ?op = "\<lparr>kind = str ''move'', uri = Some (str ''a.ts''), oldUri = None, newUri = None\<rparr>"
  have k: "kind ?op \<noteq> str ''create''" "kind ?op \<noteq> str ''delete''" "kind ?op \<noteq> str ''rename''"
    by (simp_all add: str_def)
  from unknown_kind_ignored [OF k, of exampleEnv False "worldWith [(str ''a.ts'', str ''abc'')]" "[]" "[]" None]
  show ?thesis
    by (simp add: applyWorkspaceEdit_unfold)
qed

section \<open>Lines of a text\<close>

lemma splitLines_nonempty [simp]: "splitLines s \<noteq> []"
  by (induction s) (auto split: list.splits)

lemma splitLines_Cons:
  "c \<noteq> newline \<Longrightarrow> splitLines (c # cs) = (c # hd (splitLines cs)) # tl (splitLines cs)"
  by (cases "splitLines cs") simp_all

lemma splitLines_no_newline: "l \<in> set (splitLines s) \<Longrightarrow> newline \<notin> set l"
  by (induction s arbitrary: l) (auto split: list.splits if_splits)

lemma joinLines_Cons: "ls \<noteq> [] \<Longrightarrow> joinLines (l # ls) = l @ newline # joinLines ls"
  by (cases ls) simp_all

lemma joinLines_splitLines [simp]: "joinLines (splitLines s) = s"
proof (induction s)
  case Nil
  then show ?case by simp
next
  case (Cons c cs)
  show ?case
  proof (cases "c = newline")
    case True
    with Cons show ?thesis by (simp add: joinLines_Cons)
  next
    case False
    obtain l ls where s: "splitLines cs = l # ls"
      by (cases "splitLines cs") simp_all
    with Cons False show ?thesis
      by (cases ls) auto
  qed
qed

lemma splitLines_append_newline:
  "splitLines (a @ newline # b) = splitLines a @ splitLines b"
proof (induction a)
  case Nil
  then show ?case by simp
next
  case (Cons c a)
  show ?case
  proof (cases "c = newline")
    case True
    with Cons show ?thesis by simp
  next
    case False
    obtain l ls where s: "splitLines a = l # ls"
      by (cases "splitLines a") simp_all
    with Cons False show ?thesis by simp
  qed
qed

lemma splitLines_id: "newline \<notin> set l \<Longrightarrow> splitLines l = [l]"
  by (induction l) auto

lemma splitLines_joinLines:
  "ls \<noteq> [] \<Longrightarrow> splitLines (joinLines ls) = concat (map splitLines ls)"
proof (induction ls rule: joinLines.induct)
  case 1
  then show ?case by simp
next
  case (2 l)
  then show ?case by simp
next
  case (3 l m ls)
  then show ?case by (simp add: splitLines_append_newline)
qed

lemma concat_map_splitLines_id:
  "\<forall>l\<in>set ls. newline \<notin> set l \<Longrightarrow> concat (map splitLines ls) = ls"
  by (induction ls) (simp_all add: splitLines_id)

lemma splitLines_joinLines_id:
  "ls \<noteq> [] \<Longrightarrow> \<forall>l\<in>set ls. newline \<notin> set l \<Longrightarrow> splitLines (joinLines ls) = ls"
  by (simp add: splitLines_joinLines concat_map_splitLines_id)

section \<open>The order of application\<close>

lemma logAll_def2: "logAll ms w = w\<lparr>logged := logged w @ ms\<rparr>"
  by (induction ms arbitrary: w) (simp_all add: log_def)


lemma mset_insertBy [simp]: "mset (insertBy cmp x ys) = add_mset x (mset ys)"
  by (induction ys) simp_all

lemma mset_sortBy [simp]: "mset (sortBy cmp xs) = mset xs"
  by (induction xs) (simp_all add: sortBy_def)

lemma set_insertBy [simp]: "set (insertBy cmp x ys) = insert x (set ys)"
  by (induction ys) auto

lemma set_sortBy [simp]: "set (sortBy cmp xs) = set xs"
  by (induction xs) (simp_all add: sortBy_def)

lemma length_sortBy [simp]: "length (sortBy cmp xs) = length xs"
  by (induction xs) (simp_all add: sortBy_def, metis mset_insertBy size_mset size_add_mset)

lemma compareEdits_le:
  "compareEdits a b \<le> 0 \<longleftrightarrow> posLe (start (erange b)) (start (erange a))"
  by (auto simp: compareEdits_def posLe_def Let_def)

lemma posLe_total: "posLe p q \<or> posLe q p"
  by (auto simp: posLe_def)

lemma posLe_trans: "posLe p q \<Longrightarrow> posLe q r \<Longrightarrow> posLe p r"
  by (auto simp: posLe_def)

lemma sorted_insertBy_compareEdits:
  "sorted_wrt (\<lambda>a b. posLe (start (erange b)) (start (erange a))) ys \<Longrightarrow>
   sorted_wrt (\<lambda>a b. posLe (start (erange b)) (start (erange a))) (insertBy compareEdits x ys)"
proof (induction ys)
  case Nil
  then show ?case by simp
next
  case (Cons y ys)
  show ?case
  proof (cases "compareEdits x y \<le> 0")
    case True
    then have "posLe (start (erange y)) (start (erange x))"
      by (simp add: compareEdits_le)
    with Cons.prems True show ?thesis
      by (auto intro: posLe_trans)
  next
    case False
    then have "posLe (start (erange x)) (start (erange y))"
      using posLe_total [of "start (erange y)" "start (erange x)"]
      by (simp add: compareEdits_le)
    with Cons False show ?thesis
      by auto
  qed
qed

lemma sorted_sortBy_compareEdits:
  "sorted_wrt (\<lambda>a b. posLe (start (erange b)) (start (erange a))) (sortBy compareEdits edits)"
  by (induction edits) (simp_all add: sortBy_def sorted_insertBy_compareEdits)

lemma applyTextEdits_apply:
  assumes "files w p = Some content" and "edits \<noteq> []"
  shows "applyTextEdits p edits False w =
     (case applyEdits (splitLines content) (sortBy compareEdits edits) of
        Inl err \<Rightarrow>
          (Inl err,
           w\<lparr>logged := logged w @ [str ''Applying '' @ numberToString (length edits)
                                    @ str '' edits to '' @ p],
             fscalls := fscalls w @ [ReadFile p]\<rparr>)
      | Inr lines' \<Rightarrow>
          (Inr (length edits),
           w\<lparr>files := (files w)(p \<mapsto> joinLines lines'),
             logged := logged w @ [str ''Applying '' @ numberToString (length edits)
                                    @ str '' edits to '' @ p],
             fscalls := fscalls w @ [ReadFile p, WriteFile p (joinLines lines')]\<rparr>))"
  using assms
  by (simp add: applyTextEdits_unfold Let_def log_def readFile_memoryFs writeFile_memoryFs dryRunPrefix_def
        str_def split: sum.splits)



section \<open>Dry run of a batch\<close>

lemma sorted_wrt_rev_flip: "sorted_wrt P (rev xs) = sorted_wrt (\<lambda>a b. P b a) xs"
  by (induction xs) (auto simp: sorted_wrt_append)

text \<open>
  Claim C3, as amended. A dry run of \<open>applyTextEdits\<close> on a batch that is not empty logs
  the header line and then one line per edit: the start line plus one, the start
  character, the end line plus one, the end character, and the replacement text between
  double quotes. The lines come in the reverse of the order of application: every edit
  starts at or before each edit that is rendered after it. Nothing else changes, and the
  number of edits is returned.
\<close>

theorem dryRun_renders_top_to_bottom:
  "edits \<noteq> [] \<Longrightarrow>
     applyTextEdits p edits True w =
       (Inr (length edits),
        w\<lparr>logged := logged w
             @ (str ''[DRY RUN] Applying '' @ numberToString (length edits)
                @ str '' edits to '' @ p)
             # map dryRunLine (rev (sortBy compareEdits edits))\<rparr>) \<and>
     mset (rev (sortBy compareEdits edits)) = mset edits \<and>
     sorted_wrt (\<lambda>a b. posLe (start (erange a)) (start (erange b)))
       (rev (sortBy compareEdits edits)) \<and>
     (\<forall>edit. dryRunLine edit =
        str ''  [DRY RUN] '' @ numberToString (line (start (erange edit)) + 1) @ str '':''
        @ numberToString (character (start (erange edit))) @ str ''-''
        @ numberToString (line (finish (erange edit)) + 1) @ str '':''
        @ numberToString (character (finish (erange edit))) @ str '': ''
        @ [dquote] @ newText edit @ [dquote])"
proof (intro conjI allI)
  assume "edits \<noteq> []"
  then show "applyTextEdits p edits True w =
       (Inr (length edits),
        w\<lparr>logged := logged w
             @ (str ''[DRY RUN] Applying '' @ numberToString (length edits)
                @ str '' edits to '' @ p)
             # map dryRunLine (rev (sortBy compareEdits edits))\<rparr>)"
    by (simp add: applyTextEdits_unfold Let_def dryRunPrefix_def log_def
          logAll_def2 str_def)
next
  show "mset (rev (sortBy compareEdits edits)) = mset edits"
    by simp
  show "sorted_wrt (\<lambda>a b. posLe (start (erange a)) (start (erange b)))
       (rev (sortBy compareEdits edits))"
    by (simp add: sorted_wrt_rev_flip sorted_sortBy_compareEdits)
  show "dryRunLine edit =
        str ''  [DRY RUN] '' @ numberToString (line (start (erange edit)) + 1) @ str '':''
        @ numberToString (character (start (erange edit))) @ str ''-''
        @ numberToString (line (finish (erange edit)) + 1) @ str '':''
        @ numberToString (character (finish (erange edit))) @ str '': ''
        @ [dquote] @ newText edit @ [dquote]" for edit
    by (simp add: dryRunLine_def)
qed

theorem dryRun_renders_top_to_bottom_witness:
  "applyTextEdits (str ''f.ts'') [mkEdit 2 0 2 1 ''Y'', mkEdit 0 1 0 2 ''X''] True (worldWith [])
     = (Inr 2,
        \<lparr>files = Map.empty,
         logged = [str ''[DRY RUN] Applying 2 edits to f.ts'',
                   str ''  [DRY RUN] 1:1-1:2: '' @ [dquote] @ str ''X'' @ [dquote],
                   str ''  [DRY RUN] 3:0-3:1: '' @ [dquote] @ str ''Y'' @ [dquote]],
         fscalls = []\<rparr>)"
proof -
  let ?edits = "[mkEdit 2 0 2 1 ''Y'', mkEdit 0 1 0 2 ''X'']"
  have ne: "?edits \<noteq> []"
    by simp
  have s: "rev (sortBy compareEdits ?edits) = [mkEdit 0 1 0 2 ''X'', mkEdit 2 0 2 1 ''Y'']"
    by (simp add: sortBy_def compareEdits_def mkEdit_def)
  from dryRun_renders_top_to_bottom [OF ne, of "str ''f.ts''" "worldWith []"]
  have "applyTextEdits (str ''f.ts'') ?edits True (worldWith []) =
       (Inr (length ?edits),
        (worldWith [])\<lparr>logged := logged (worldWith [])
             @ (str ''[DRY RUN] Applying '' @ numberToString (length ?edits)
                @ str '' edits to '' @ str ''f.ts'')
             # map dryRunLine (rev (sortBy compareEdits ?edits))\<rparr>)"
    by blast
  then show ?thesis
    unfolding s
    by (simp add: worldWith_def dryRunLine_def mkEdit_def numberToString.simps str_def)
qed

text \<open>
  The claim as stated fails: of two edits, the one on line 2 is applied first, and the one
  on line 0 is rendered first.
\<close>

theorem dryRun_order_counterexample:
  "sortBy compareEdits [mkEdit 0 1 0 2 ''X'', mkEdit 2 0 2 1 ''Y'']
     = [mkEdit 2 0 2 1 ''Y'', mkEdit 0 1 0 2 ''X''] \<and>
   logged (snd (applyTextEdits (str ''f.ts'') [mkEdit 0 1 0 2 ''X'', mkEdit 2 0 2 1 ''Y''] True
                  (worldWith [])))
     = [str ''[DRY RUN] Applying 2 edits to f.ts'',
        dryRunLine (mkEdit 0 1 0 2 ''X''), dryRunLine (mkEdit 2 0 2 1 ''Y'')] \<and>
   logged (snd (applyTextEdits (str ''f.ts'') [mkEdit 0 1 0 2 ''X'', mkEdit 2 0 2 1 ''Y''] True
                  (worldWith [])))
     \<noteq> str ''[DRY RUN] Applying 2 edits to f.ts''
       # map dryRunLine (sortBy compareEdits [mkEdit 0 1 0 2 ''X'', mkEdit 2 0 2 1 ''Y''])"
  by (simp add: applyTextEdits_unfold Let_def log_def worldWith_def sortBy_def compareEdits_def
        mkEdit_def dryRunLine_def dryRunPrefix_def numberToString.simps str_def)

section \<open>One edit\<close>

lemma sortBy_single [simp]: "sortBy cmp [x] = [x]"
  by (simp add: sortBy_def)

lemma applyEdit_multi_line:
  assumes "line (start (erange edit)) < line (finish (erange edit))"
    and "line (finish (erange edit)) < length lines"
  shows "applyEdit lines edit =
     Inr (take (line (start (erange edit))) lines
          @ splitLines (take (character (start (erange edit))) (lines ! line (start (erange edit)))
                        @ newText edit
                        @ drop (character (finish (erange edit)))
                            (lines ! line (finish (erange edit))))
          @ drop (Suc (line (finish (erange edit)))) lines)"
proof -
  have "nat (int (line (finish (erange edit))) - int (line (start (erange edit))) + 1)
          = Suc (line (finish (erange edit))) - line (start (erange edit))"
    using assms by linarith
  with assms show ?thesis
    by (simp add: applyEdit_def arraySplice_def Let_def min_def)
qed

text \<open>
  Claim C2. A multi-line edit whose range is in bounds replaces, in the array of lines,
  the lines from the start line to the end line, both included, by the pieces between
  line breaks of: the start line before the start character, the new text, the end line
  after the end character. Applied alone to a file outside a dry run, it writes these
  lines joined. The text \<open>one\<close>, \<open>two\<close>, \<open>three\<close> with the edit \<open>(0,3)-(2,0)\<close> to \<open>X\<close>,
  line break, \<open>Y\<close> becomes \<open>oneX\<close>, \<open>Ythree\<close>.
\<close>

theorem multi_line_edit_splices:
  assumes "line (start (erange edit)) \<noteq> line (finish (erange edit))"
    and "inBounds lines (erange edit)"
  shows "applyEdit lines edit =
     Inr (take (line (start (erange edit))) lines
          @ splitLines (take (character (start (erange edit))) (lines ! line (start (erange edit)))
                        @ newText edit
                        @ drop (character (finish (erange edit)))
                            (lines ! line (finish (erange edit))))
          @ drop (Suc (line (finish (erange edit)))) lines) \<and>
   (\<forall>w p content. files w p = Some content \<and> splitLines content = lines \<longrightarrow>
      fst (applyTextEdits p [edit] False w) = Inr 1 \<and>
      files (snd (applyTextEdits p [edit] False w)) =
        (files w)(p \<mapsto> joinLines
          (take (line (start (erange edit))) lines
           @ splitLines (take (character (start (erange edit))) (lines ! line (start (erange edit)))
                         @ newText edit
                         @ drop (character (finish (erange edit)))
                             (lines ! line (finish (erange edit))))
           @ drop (Suc (line (finish (erange edit)))) lines))) \<and>
   applyTextEdits (str ''f.ts'') [mkEdit 0 3 2 0 ''X\<newline>Y''] False
       (worldWith [(str ''f.ts'', str ''one\<newline>two\<newline>three'')])
     = (Inr 1,
        \<lparr>files = [str ''f.ts'' \<mapsto> str ''oneX\<newline>Ythree''],
         logged = [str ''Applying 1 edits to f.ts''],
         fscalls = [ReadFile (str ''f.ts''),
                    WriteFile (str ''f.ts'') (str ''oneX\<newline>Ythree'')]\<rparr>)"
proof (intro conjI allI impI)
  from assms have lt: "line (start (erange edit)) < line (finish (erange edit))"
    and b: "line (finish (erange edit)) < length lines"
    by (auto simp: inBounds_def posLe_def)
  then show a: "applyEdit lines edit =
     Inr (take (line (start (erange edit))) lines
          @ splitLines (take (character (start (erange edit))) (lines ! line (start (erange edit)))
                        @ newText edit
                        @ drop (character (finish (erange edit)))
                            (lines ! line (finish (erange edit))))
          @ drop (Suc (line (finish (erange edit)))) lines)"
    by (rule applyEdit_multi_line)
  fix w :: "jsstring world" and p content
  assume f: "files w p = Some content \<and> splitLines content = lines"
  with a show "fst (applyTextEdits p [edit] False w) = Inr 1"
    by (simp add: applyTextEdits_apply)
  from f a show "files (snd (applyTextEdits p [edit] False w)) =
        (files w)(p \<mapsto> joinLines
          (take (line (start (erange edit))) lines
           @ splitLines (take (character (start (erange edit))) (lines ! line (start (erange edit)))
                         @ newText edit
                         @ drop (character (finish (erange edit)))
                             (lines ! line (finish (erange edit))))
           @ drop (Suc (line (finish (erange edit)))) lines))"
    by (simp add: applyTextEdits_apply)
next
  show "applyTextEdits (str ''f.ts'') [mkEdit 0 3 2 0 ''X\<newline>Y''] False
       (worldWith [(str ''f.ts'', str ''one\<newline>two\<newline>three'')])
     = (Inr 1,
        \<lparr>files = [str ''f.ts'' \<mapsto> str ''oneX\<newline>Ythree''],
         logged = [str ''Applying 1 edits to f.ts''],
         fscalls = [ReadFile (str ''f.ts''),
                    WriteFile (str ''f.ts'') (str ''oneX\<newline>Ythree'')]\<rparr>)"
    by (simp add: worldWith_def applyTextEdits_unfold Let_def log_def readFile_memoryFs
          writeFile_memoryFs applyEdit_def arraySplice_def mkEdit_def dryRunPrefix_def
          str_def numberToString.simps)
qed

theorem multi_line_edit_splices_witness:
  "applyEdit [str ''one'', str ''two'', str ''three'', str ''four''] (mkEdit 1 1 2 2 ''A\<newline>B\<newline>C'')
     = Inr [str ''one'', str ''tA'', str ''B'', str ''Cree'', str ''four'']"
proof -
  let ?lines = "[str ''one'', str ''two'', str ''three'', str ''four'']"
  let ?edit = "mkEdit 1 1 2 2 ''A\<newline>B\<newline>C''"
  have ml: "line (start (erange ?edit)) \<noteq> line (finish (erange ?edit))"
    by (simp add: mkEdit_def)
  have ib: "inBounds ?lines (erange ?edit)"
    by (simp add: inBounds_def posLe_def mkEdit_def str_def)
  from multi_line_edit_splices [OF ml ib]
  have "applyEdit ?lines ?edit =
     Inr (take (line (start (erange ?edit))) ?lines
          @ splitLines (take (character (start (erange ?edit))) (?lines ! line (start (erange ?edit)))
                        @ newText ?edit
                        @ drop (character (finish (erange ?edit)))
                            (?lines ! line (finish (erange ?edit))))
          @ drop (Suc (line (finish (erange ?edit)))) ?lines)"
    by blast
  then show ?thesis
    by (simp add: mkEdit_def str_def)
qed

lemma frame_nth:
  assumes "sl \<le> el" and "el < length L" and L': "L' = take sl L @ mid @ drop (Suc el) L"
  shows "(\<forall>i < sl. L' ! i = L ! i) \<and>
         (\<forall>i i'. el < i \<and> i < length L
                  \<and> int i' = int i + (int (length L') - int (length L))
                \<longrightarrow> i' < length L' \<and> L' ! i' = L ! i)"
proof (intro conjI allI impI)
  fix i
  assume "i < sl"
  with assms show "L' ! i = L ! i"
    by (simp add: nth_append)
next
  fix i i'
  assume a: "el < i \<and> i < length L \<and> int i' = int i + (int (length L') - int (length L))"
  from assms have len: "length L' = sl + length mid + (length L - Suc el)"
    by simp
  with a assms have i': "i' = sl + length mid + (i - Suc el)"
    by linarith
  with a len show "i' < length L'"
    by linarith
  define k where "k = i - Suc el"
  with a have i: "i = Suc el + k"
    by simp
  from i' k_def have "i' = length (take sl L @ mid) + k"
    using assms by simp
  then have "L' ! i' = drop (Suc el) L ! k"
    unfolding L' by (metis append.assoc nth_append_length_plus)
  also have "\<dots> = L ! i"
    using a i by simp
  finally show "L' ! i' = L ! i" .
qed

lemma applyEdit_file_lines:
  assumes le: "line (start (erange edit)) \<le> line (finish (erange edit))"
    and b: "line (finish (erange edit)) < length ls"
    and nf: "\<forall>l\<in>set ls. newline \<notin> set l"
  shows "\<exists>lines'. applyEdit ls edit = Inr lines' \<and> lines' \<noteq> [] \<and>
     concat (map splitLines lines') =
       take (line (start (erange edit))) ls
       @ splitLines (take (character (start (erange edit))) (ls ! line (start (erange edit)))
                     @ newText edit
                     @ drop (character (finish (erange edit))) (ls ! line (finish (erange edit))))
       @ drop (Suc (line (finish (erange edit)))) ls"
proof -
  have t: "concat (map splitLines (take n ls)) = take n ls" for n
    using nf by (intro concat_map_splitLines_id) (auto dest: in_set_takeD)
  have d: "concat (map splitLines (drop n ls)) = drop n ls" for n
    using nf by (intro concat_map_splitLines_id) (auto dest: in_set_dropD)
  show ?thesis
  proof (cases "line (start (erange edit)) = line (finish (erange edit))")
    case True
    with b show ?thesis
      by (simp add: applyEdit_def Let_def upd_conv_take_nth_drop t d)
  next
    case False
    with le have lt: "line (start (erange edit)) < line (finish (erange edit))"
      by simp
    have m: "concat (map splitLines (splitLines x)) = splitLines x" for x
      by (intro concat_map_splitLines_id) (auto dest: splitLines_no_newline)
    show ?thesis
      by (simp add: applyEdit_multi_line [OF lt b] t d m)
  qed
qed



section \<open>Round trip\<close>

subsection \<open>Joining lines\<close>

text \<open>
  The joined text of an array of lines splits at any position of the array into the text
  before the position and the text after it; one edit replaces, in the joined text, what
  lies between its start and its end by its new text.
\<close>

lemma joinLines_append:
  "xs \<noteq> [] \<Longrightarrow> ys \<noteq> [] \<Longrightarrow> joinLines (xs @ ys) = joinLines xs @ newline # joinLines ys"
proof (induction xs rule: joinLines.induct)
  case 1
  then show ?case by simp
next
  case (2 l)
  then show ?case by (simp add: joinLines_Cons)
next
  case (3 l m ls)
  then show ?case by simp
qed

lemma joinLines_prepend: "a @ joinLines (x # xs) = joinLines ((a @ x) # xs)"
  by (cases xs) simp_all

lemma joinLines_split_line:
  "joinLines (xs @ (u @ v) # ys) = joinLines (xs @ [u]) @ joinLines (v # ys)"
proof (cases "xs = []")
  case True
  then show ?thesis
    by (cases ys) simp_all
next
  case False
  then have "joinLines (xs @ (u @ v) # ys) = joinLines xs @ newline # joinLines ((u @ v) # ys)"
    by (simp add: joinLines_append)
  also have "joinLines ((u @ v) # ys) = u @ joinLines (v # ys)"
    by (cases ys) simp_all
  finally show ?thesis
    using False by (simp add: joinLines_append)
qed

lemma joinLines_splitLines_middle:
  "joinLines (xs @ splitLines t @ ys) = joinLines (xs @ t # ys)"
proof -
  have a: "joinLines (splitLines t @ ys) = joinLines (t # ys)"
  proof (cases "ys = []")
    case True
    then show ?thesis by simp
  next
    case False
    then show ?thesis
      by (simp add: joinLines_append joinLines_Cons)
  qed
  show ?thesis
  proof (cases "xs = []")
    case True
    with a show ?thesis by simp
  next
    case False
    then have "joinLines (xs @ splitLines t @ ys)
        = joinLines xs @ newline # joinLines (splitLines t @ ys)"
      by (simp add: joinLines_append)
    with a False show ?thesis
      by (simp add: joinLines_append)
  qed
qed

lemma prefixAt_suffixAt:
  assumes "line p < length ls"
  shows "prefixAt ls p @ suffixAt ls p = joinLines ls"
proof -
  let ?l = "ls ! line p"
  have "ls = take (line p) ls @ (take (character p) ?l @ drop (character p) ?l)
               # drop (Suc (line p)) ls"
    using assms by (simp add: id_take_nth_drop [symmetric])
  then have "joinLines ls
      = joinLines (take (line p) ls @ (take (character p) ?l @ drop (character p) ?l)
               # drop (Suc (line p)) ls)"
    by simp
  also have "\<dots> = prefixAt ls p @ suffixAt ls p"
    unfolding prefixAt_def suffixAt_def by (rule joinLines_split_line)
  finally show ?thesis
    by simp
qed

lemma prefixAt_take:
  assumes "line p < length ls"
  shows "prefixAt ls p = take (offsetOf ls p) (joinLines ls)"
    and "suffixAt ls p = drop (offsetOf ls p) (joinLines ls)"
    and "offsetOf ls p \<le> length (joinLines ls)"
  using prefixAt_suffixAt [OF assms, symmetric] by (simp_all add: offsetOf_def)

lemma applyEdit_joined:
  assumes le: "posLe (start (erange edit)) (finish (erange edit))"
    and b: "line (finish (erange edit)) < length ls"
  shows "\<exists>ls'. applyEdit ls edit = Inr ls' \<and>
     ls' = take (line (start (erange edit))) ls
           @ (if line (start (erange edit)) = line (finish (erange edit))
              then [take (character (start (erange edit))) (ls ! line (start (erange edit)))
                    @ newText edit
                    @ drop (character (finish (erange edit))) (ls ! line (finish (erange edit)))]
              else splitLines
                     (take (character (start (erange edit))) (ls ! line (start (erange edit)))
                      @ newText edit
                      @ drop (character (finish (erange edit)))
                          (ls ! line (finish (erange edit)))))
           @ drop (Suc (line (finish (erange edit)))) ls \<and>
     joinLines ls'
       = prefixAt ls (start (erange edit)) @ newText edit @ suffixAt ls (finish (erange edit))"
proof (cases "line (start (erange edit)) = line (finish (erange edit))")
  case True
  let ?l = "line (start (erange edit))"
  let ?mid = "take (character (start (erange edit))) (ls ! ?l) @ newText edit
              @ drop (character (finish (erange edit))) (ls ! ?l)"
  from True b have r: "applyEdit ls edit = Inr (ls[?l := ?mid])"
    by (simp add: applyEdit_def Let_def)
  from True b have u: "ls[?l := ?mid] = take ?l ls @ ?mid # drop (Suc ?l) ls"
    by (simp add: upd_conv_take_nth_drop)
  have "joinLines (take ?l ls @ ?mid # drop (Suc ?l) ls)
      = joinLines (take ?l ls @ [take (character (start (erange edit))) (ls ! ?l)])
        @ joinLines ((newText edit @ drop (character (finish (erange edit))) (ls ! ?l))
                     # drop (Suc ?l) ls)"
    by (rule joinLines_split_line)
  also have "\<dots> = prefixAt ls (start (erange edit)) @ newText edit
                     @ suffixAt ls (finish (erange edit))"
    using True by (simp add: prefixAt_def suffixAt_def joinLines_prepend [symmetric])
  finally show ?thesis
    using r u True by simp
next
  case False
  with le have lt: "line (start (erange edit)) < line (finish (erange edit))"
    by (auto simp: posLe_def)
  let ?sl = "line (start (erange edit))"
  let ?el = "line (finish (erange edit))"
  let ?before = "take (character (start (erange edit))) (ls ! ?sl)"
  let ?after = "drop (character (finish (erange edit))) (ls ! ?el)"
  from applyEdit_multi_line [OF lt b]
  have r: "applyEdit ls edit
      = Inr (take ?sl ls @ splitLines (?before @ newText edit @ ?after) @ drop (Suc ?el) ls)" .
  have "joinLines (take ?sl ls @ splitLines (?before @ newText edit @ ?after) @ drop (Suc ?el) ls)
      = joinLines (take ?sl ls @ (?before @ newText edit @ ?after) # drop (Suc ?el) ls)"
    by (rule joinLines_splitLines_middle)
  also have "\<dots> = joinLines (take ?sl ls @ [?before])
                     @ joinLines ((newText edit @ ?after) # drop (Suc ?el) ls)"
    by (rule joinLines_split_line)
  also have "\<dots> = prefixAt ls (start (erange edit)) @ newText edit
                     @ suffixAt ls (finish (erange edit))"
    by (simp add: prefixAt_def suffixAt_def joinLines_prepend [symmetric])
  finally show ?thesis
    using r False by simp
qed

lemma splitLines_prepend:
  "newline \<notin> set a \<Longrightarrow> splitLines (a @ b) = (a @ hd (splitLines b)) # tl (splitLines b)"
  by (induction a) (simp_all add: splitLines_Cons)

subsection \<open>Edits on lines that agree with the original up to a position\<close>

text \<open>
  An edit changes nothing before its start. So after the edits applied so far, the next
  edit, which ends where or before they start, finds the lines of the original at its
  range, and replaces in the joined text the span that it has in the original.
\<close>

lemma agreeUpTo_refl:
  "line p < length original \<Longrightarrow> character p \<le> length (original ! line p)
     \<Longrightarrow> agreeUpTo original original p"
  by (simp add: agreeUpTo_def)

lemma agreeUpTo_mono:
  assumes a: "agreeUpTo original ls p"
    and le: "posLe q p"
    and c: "character q \<le> length (original ! line q)"
  shows "agreeUpTo original ls q"
proof -
  from a have lp: "line p < length ls" "line p < length original"
    and t: "take (line p) ls = take (line p) original"
    and tc: "take (character p) (ls ! line p) = take (character p) (original ! line p)"
    by (simp_all add: agreeUpTo_def)
  from le have lq: "line q \<le> line p"
    by (auto simp: posLe_def)
  have "take (line q) ls = take (line q) (take (line p) ls)"
    using lq by (simp add: min_def)
  also have "\<dots> = take (line q) (take (line p) original)"
    using t by simp
  also have "\<dots> = take (line q) original"
    using lq by (simp add: min_def)
  finally have t': "take (line q) ls = take (line q) original" .
  have tc': "take (character q) (ls ! line q) = take (character q) (original ! line q)"
  proof (cases "line q < line p")
    case True
    then have "ls ! line q = take (line p) ls ! line q"
      by simp
    also have "\<dots> = take (line p) original ! line q"
      using t by simp
    also have "\<dots> = original ! line q"
      using True by simp
    finally show ?thesis
      by simp
  next
    case False
    with le have eq: "line q = line p" and cc: "character q \<le> character p"
      by (auto simp: posLe_def)
    have "take (character q) (ls ! line p)
        = take (character q) (take (character p) (ls ! line p))"
      using cc by (simp add: min_def)
    also have "\<dots> = take (character q) (take (character p) (original ! line p))"
      using tc by simp
    also have "\<dots> = take (character q) (original ! line p)"
      using cc by (simp add: min_def)
    finally show ?thesis
      using eq by simp
  qed
  from lp lq t' tc' c show ?thesis
    by (simp add: agreeUpTo_def)
qed

lemma agreeUpTo_prefixAt: "agreeUpTo original ls p \<Longrightarrow> prefixAt ls p = prefixAt original p"
  by (simp add: agreeUpTo_def prefixAt_def)

lemma agreeUpTo_offsetOf: "agreeUpTo original ls p \<Longrightarrow> offsetOf ls p = offsetOf original p"
  by (simp add: offsetOf_def agreeUpTo_prefixAt)

lemma applyEdit_agreeUpTo:
  assumes a: "agreeUpTo original ls (finish (erange edit))"
    and le: "posLe (start (erange edit)) (finish (erange edit))"
    and c: "character (start (erange edit))
              \<le> length (original ! line (start (erange edit)))"
    and nf: "\<forall>l\<in>set original. newline \<notin> set l"
  shows "\<exists>ls'. applyEdit ls edit = Inr ls' \<and> agreeUpTo original ls' (start (erange edit)) \<and>
     joinLines ls' = replaceSpan (joinLines ls) (spanOf original edit)"
proof -
  let ?s = "start (erange edit)"
  let ?f = "finish (erange edit)"
  let ?before = "take (character ?s) (ls ! line ?s)"
  let ?after = "drop (character ?f) (ls ! line ?f)"
  let ?mid = "if line ?s = line ?f then [?before @ newText edit @ ?after]
              else splitLines (?before @ newText edit @ ?after)"
  from a le c have as: "agreeUpTo original ls ?s"
    by (rule agreeUpTo_mono)
  from a have bf: "line ?f < length ls"
    by (simp add: agreeUpTo_def)
  from as have bs: "line ?s < length ls" "line ?s < length original"
    and ts: "take (line ?s) ls = take (line ?s) original"
    and tc: "?before = take (character ?s) (original ! line ?s)"
    by (simp_all add: agreeUpTo_def)
  from applyEdit_joined [OF le bf] obtain ls' where r: "applyEdit ls edit = Inr ls'"
    and form: "ls' = take (line ?s) ls @ ?mid @ drop (Suc (line ?f)) ls"
    and j: "joinLines ls' = prefixAt ls ?s @ newText edit @ suffixAt ls ?f"
    by blast
  from bs(2) have "original ! line ?s \<in> set original"
    by simp
  with nf have "newline \<notin> set (original ! line ?s)"
    by blast
  then have nb: "newline \<notin> set ?before"
    unfolding tc by (auto dest: in_set_takeD)
  from c tc have lb: "length ?before = character ?s"
    by simp
  have "\<exists>rest more. ?mid = (?before @ rest) # more"
  proof (cases "line ?s = line ?f")
    case True
    then show ?thesis by simp
  next
    case False
    from nb have "splitLines (?before @ (newText edit @ ?after))
        = (?before @ hd (splitLines (newText edit @ ?after)))
          # tl (splitLines (newText edit @ ?after))"
      by (rule splitLines_prepend)
    with False show ?thesis by simp
  qed
  then obtain rest more where mid: "?mid = (?before @ rest) # more"
    by blast
  from form mid have form': "ls' = take (line ?s) ls @ (?before @ rest) # more
      @ drop (Suc (line ?f)) ls"
    by simp
  from bs(1) have lt: "length (take (line ?s) ls) = line ?s"
    by simp
  from form' lt have n1: "line ?s < length ls'"
    by simp
  from form' lt have n2: "take (line ?s) ls' = take (line ?s) ls"
    by simp
  from form' lt have n3: "ls' ! line ?s = ?before @ rest"
    by (metis nth_append_length)
  from n3 lb have n4: "take (character ?s) (ls' ! line ?s) = ?before"
    by simp
  from n1 n2 n4 bs(2) ts tc c have ag: "agreeUpTo original ls' ?s"
    by (simp add: agreeUpTo_def)
  have "prefixAt ls ?s = take (offsetOf ls ?s) (joinLines ls)"
    using bs(1) by (rule prefixAt_take)
  moreover have "suffixAt ls ?f = drop (offsetOf ls ?f) (joinLines ls)"
    using bf by (rule prefixAt_take)
  moreover have "offsetOf ls ?s = offsetOf original ?s"
    using as by (rule agreeUpTo_offsetOf)
  moreover have "offsetOf ls ?f = offsetOf original ?f"
    using a by (rule agreeUpTo_offsetOf)
  ultimately have "joinLines ls' = replaceSpan (joinLines ls) (spanOf original edit)"
    using j by (simp add: spanOf_def)
  with r ag show ?thesis
    by blast
qed

lemma applyEdits_joined:
  assumes "agreeUpTo original ls (finish (erange e))"
    and "separatedInOrder (e # es)"
    and "\<forall>x\<in>set (e # es). inBounds original (erange x)"
    and "\<forall>l\<in>set original. newline \<notin> set l"
  shows "\<exists>ls'. applyEdits ls (e # es) = Inr ls' \<and>
     joinLines ls' = replaceSpans (joinLines ls) (map (spanOf original) (e # es))"
  using assms
proof (induction es arbitrary: ls e)
  case Nil
  from Nil.prems have le: "posLe (start (erange e)) (finish (erange e))"
    and c: "character (start (erange e)) \<le> length (original ! line (start (erange e)))"
    by (simp_all add: inBounds_def)
  from applyEdit_agreeUpTo [OF Nil.prems(1) le c Nil.prems(4)]
  show ?case
    by (auto simp: replaceSpans_def)
next
  case (Cons e' es)
  from Cons.prems have le: "posLe (start (erange e)) (finish (erange e))"
    and c: "character (start (erange e)) \<le> length (original ! line (start (erange e)))"
    by (simp_all add: inBounds_def)
  from applyEdit_agreeUpTo [OF Cons.prems(1) le c Cons.prems(4)]
  obtain ls1 where r: "applyEdit ls e = Inr ls1"
    and ag: "agreeUpTo original ls1 (start (erange e))"
    and j: "joinLines ls1 = replaceSpan (joinLines ls) (spanOf original e)"
    by blast
  from Cons.prems(2) have sep: "posLe (finish (erange e')) (start (erange e))"
    and sep': "separatedInOrder (e' # es)"
    by simp_all
  from Cons.prems(3) have c': "character (finish (erange e'))
      \<le> length (original ! line (finish (erange e')))"
    and ib: "\<forall>x\<in>set (e' # es). inBounds original (erange x)"
    by (simp_all add: inBounds_def)
  from ag sep c' have ag': "agreeUpTo original ls1 (finish (erange e'))"
    by (rule agreeUpTo_mono)
  from Cons.IH [OF ag' sep' ib Cons.prems(4)]
  obtain ls' where r': "applyEdits ls1 (e' # es) = Inr ls'"
    and j': "joinLines ls' = replaceSpans (joinLines ls1) (map (spanOf original) (e' # es))"
    by blast
  from r r' have "applyEdits ls (e # e' # es) = Inr ls'"
    by simp
  moreover from j j' have "joinLines ls'
      = replaceSpans (joinLines ls) (map (spanOf original) (e # e' # es))"
    by (simp add: replaceSpans_def)
  ultimately show ?case
    by blast
qed

subsection \<open>Replacing separated spans of a text, and undoing it\<close>

text \<open>
  Replacing separated spans, latest first, leaves the text after each span as it is; the
  inverse spans are separated too, and replacing them gives the text back.
\<close>

lemma replaceSpans_Nil [simp]: "replaceSpans x [] = x"
  by (simp add: replaceSpans_def)

lemma replaceSpans_Cons: "replaceSpans x (sp # spans) = replaceSpans (replaceSpan x sp) spans"
  by (simp add: replaceSpans_def)

lemma replaceSpans_append:
  "separatedSpans (length x) spans \<Longrightarrow> replaceSpans (x @ y) spans = replaceSpans x spans @ y"
proof (induction spans arbitrary: x y)
  case Nil
  then show ?case by simp
next
  case (Cons sp spans)
  obtain a b t where sp: "sp = (a, b, t)"
    by (cases sp) auto
  from Cons.prems sp have ab: "a \<le> b" "b \<le> length x" and sep: "separatedSpans a spans"
    by simp_all
  from ab have la: "length (take a x) = a"
    by simp
  from sep la have sep': "separatedSpans (length (take a x)) spans"
    by simp
  from ab sp have "replaceSpan (x @ y) sp = take a x @ (t @ drop b x @ y)"
    by simp
  then have "replaceSpans (x @ y) (sp # spans) = replaceSpans (take a x) spans @ t @ drop b x @ y"
    using Cons.IH [OF sep'] by (simp add: replaceSpans_Cons)
  moreover from sp have "replaceSpan x sp = take a x @ (t @ drop b x)"
    by simp
  then have "replaceSpans x (sp # spans) = replaceSpans (take a x) spans @ t @ drop b x"
    using Cons.IH [OF sep'] by (simp add: replaceSpans_Cons)
  ultimately show ?case
    by simp
qed

lemma replaceSpans_first:
  assumes "separatedSpans (length x) ((a, b, t) # spans)"
  shows "replaceSpans x ((a, b, t) # spans) = replaceSpans (take a x) spans @ t @ drop b x"
proof -
  from assms have ab: "a \<le> b" "b \<le> length x" and sep: "separatedSpans a spans"
    by simp_all
  from ab sep have sep': "separatedSpans (length (take a x)) spans"
    by simp
  have "replaceSpans x ((a, b, t) # spans) = replaceSpans (take a x @ (t @ drop b x)) spans"
    by (simp add: replaceSpans_Cons)
  also have "\<dots> = replaceSpans (take a x) spans @ t @ drop b x"
    using sep' by (rule replaceSpans_append)
  finally show ?thesis .
qed

lemma separatedSpans_inverseSpans:
  "separatedSpans (length x) spans \<Longrightarrow>
     separatedSpans (length (replaceSpans x spans)) (inverseSpans x spans)"
proof (induction spans arbitrary: x)
  case Nil
  then show ?case by simp
next
  case (Cons sp spans)
  obtain a b t where sp: "sp = (a, b, t)"
    by (cases sp) auto
  from Cons.prems sp have ab: "a \<le> b" "b \<le> length x" and sep: "separatedSpans a spans"
    by simp_all
  from ab sep have sep': "separatedSpans (length (take a x)) spans"
    by simp
  from Cons.prems sp have post: "replaceSpans x (sp # spans)
      = replaceSpans (take a x) spans @ t @ drop b x"
    by (simp add: replaceSpans_first)
  from Cons.IH [OF sep'] post sp show ?case
    by (simp add: Let_def)
qed

lemma replaceSpans_inverseSpans:
  "separatedSpans (length x) spans \<Longrightarrow>
     replaceSpans (replaceSpans x spans) (inverseSpans x spans) = x"
proof (induction spans arbitrary: x)
  case Nil
  then show ?case by simp
next
  case (Cons sp spans)
  obtain a b t where sp: "sp = (a, b, t)"
    by (cases sp) auto
  from Cons.prems sp have ab: "a \<le> b" "b \<le> length x" and sep: "separatedSpans a spans"
    by simp_all
  from ab sep have sep': "separatedSpans (length (take a x)) spans"
    by simp
  let ?px = "replaceSpans (take a x) spans"
  let ?orig = "take (b - a) (drop a x)"
  from Cons.prems sp have post: "replaceSpans x (sp # spans) = ?px @ t @ drop b x"
    by (simp add: replaceSpans_first)
  have inv: "inverseSpans x (sp # spans)
      = (length ?px, length ?px + length t, ?orig) # inverseSpans (take a x) spans"
    using sp by (simp add: Let_def)
  have "replaceSpan (?px @ t @ drop b x) (length ?px, length ?px + length t, ?orig)
      = ?px @ (?orig @ drop b x)"
    by simp
  then have "replaceSpans (replaceSpans x (sp # spans)) (inverseSpans x (sp # spans))
      = replaceSpans (?px @ (?orig @ drop b x)) (inverseSpans (take a x) spans)"
    using post inv by (simp add: replaceSpans_Cons)
  also have "\<dots> = replaceSpans ?px (inverseSpans (take a x) spans) @ ?orig @ drop b x"
    using separatedSpans_inverseSpans [OF sep'] by (rule replaceSpans_append)
  also have "\<dots> = take a x @ ?orig @ drop b x"
    using Cons.IH [OF sep'] by simp
  also have "?orig @ drop b x = drop a x"
  proof -
    from ab have "drop b x = drop (b - a) (drop a x)"
      by simp
    then show ?thesis
      by (metis append_take_drop_id)
  qed
  finally show ?case
    by simp
qed

subsection \<open>Positions and offsets\<close>

text \<open>
  Offsets grow with positions, and the position at an offset of a text is a position of
  its lines that has this offset.
\<close>

lemma offsetOf_mono:
  assumes le: "posLe p q"
    and b: "line q < length ls"
  shows "offsetOf ls p \<le> offsetOf ls q"
proof -
  let ?upto = "take (line q) ls @ [take (character q) (ls ! line q)]"
  from le have lq: "line p \<le> line q"
    by (auto simp: posLe_def)
  from b have len: "length (take (line q) ls) = line q"
    by simp
  from lq b have t: "take (line p) ?upto = take (line p) ls"
    by simp
  have tc: "take (character p) (?upto ! line p) = take (character p) (ls ! line p)"
  proof (cases "line p < line q")
    case True
    with b show ?thesis
      by (simp add: nth_append)
  next
    case False
    with le have eq: "line p = line q" and cc: "character p \<le> character q"
      by (auto simp: posLe_def)
    from len eq have "?upto ! line p = take (character q) (ls ! line q)"
      by (metis nth_append_length)
    with eq cc show ?thesis
      by (simp add: min_def)
  qed
  from t tc have "prefixAt ?upto p = prefixAt ls p"
    by (simp add: prefixAt_def)
  moreover from lq b have "line p < length ?upto"
    by simp
  then have "prefixAt ?upto p @ suffixAt ?upto p = joinLines ?upto"
    by (rule prefixAt_suffixAt)
  ultimately have "prefixAt ls p @ suffixAt ?upto p = prefixAt ls q"
    by (simp add: prefixAt_def)
  then have "length (prefixAt ls p) \<le> length (prefixAt ls q)"
    by (metis length_append le_add1)
  then show ?thesis
    by (simp add: offsetOf_def)
qed

lemma separatedSpans_spanOf:
  assumes "\<forall>x\<in>set (e # es). inBounds ls (erange x)"
    and "separatedInOrder (e # es)"
    and "offsetOf ls (finish (erange e)) \<le> n"
  shows "separatedSpans n (map (spanOf ls) (e # es))"
  using assms
proof (induction es arbitrary: e n)
  case Nil
  from Nil.prems(1) have "posLe (start (erange e)) (finish (erange e))"
    and "line (finish (erange e)) < length ls"
    by (simp_all add: inBounds_def)
  then have "offsetOf ls (start (erange e)) \<le> offsetOf ls (finish (erange e))"
    by (rule offsetOf_mono)
  with Nil.prems(3) show ?case
    by (simp add: spanOf_def)
next
  case (Cons e' es)
  from Cons.prems(1) have le: "posLe (start (erange e)) (finish (erange e))"
    and b: "line (finish (erange e)) < length ls"
    by (simp_all add: inBounds_def)
  from le b have ab: "offsetOf ls (start (erange e)) \<le> offsetOf ls (finish (erange e))"
    by (rule offsetOf_mono)
  from le b have bs: "line (start (erange e)) < length ls"
    by (auto simp: posLe_def)
  from Cons.prems(2) have sep: "posLe (finish (erange e')) (start (erange e))"
    and sep': "separatedInOrder (e' # es)"
    by simp_all
  from sep bs have n': "offsetOf ls (finish (erange e')) \<le> offsetOf ls (start (erange e))"
    by (rule offsetOf_mono)
  from Cons.prems(1) have ib: "\<forall>x\<in>set (e' # es). inBounds ls (erange x)"
    by simp
  from Cons.IH [OF ib sep' n'] ab Cons.prems(3) show ?case
    by (simp add: spanOf_def)
qed

lemma splitLines_append:
  "splitLines (u @ v)
     = butlast (splitLines u) @ (last (splitLines u) @ hd (splitLines v)) # tl (splitLines v)"
proof (induction u)
  case Nil
  then show ?case by simp
next
  case (Cons c u)
  obtain x xs where U: "splitLines u = x # xs"
    by (cases "splitLines u") simp_all
  show ?case
  proof (cases "c = newline")
    case True
    with Cons U show ?thesis by simp
  next
    case False
    with Cons U show ?thesis
      by (cases xs) (simp_all add: splitLines_Cons)
  qed
qed

lemma positionAt_bounds:
  assumes "off \<le> length text"
  shows "line (positionAt text off) < length (splitLines text)"
    and "character (positionAt text off)
           \<le> length (splitLines text ! line (positionAt text off))"
    and "prefixAt (splitLines text) (positionAt text off) = take off text"
    and "offsetOf (splitLines text) (positionAt text off) = off"
proof -
  let ?U = "splitLines (take off text)"
  let ?V = "splitLines (drop off text)"
  let ?B = "butlast ?U @ (last ?U @ hd ?V) # tl ?V"
  let ?q = "positionAt text off"
  have "splitLines text = splitLines (take off text @ drop off text)"
    by simp
  also have "\<dots> = ?B"
    by (rule splitLines_append)
  finally have B: "splitLines text = ?B" .
  have lq: "line ?q = length (butlast ?U)"
    by (simp add: positionAt_def Let_def)
  have cq: "character ?q = length (last ?U)"
    by (simp add: positionAt_def Let_def)
  show 1: "line ?q < length (splitLines text)"
    unfolding B lq by simp
  have nth: "?B ! length (butlast ?U) = last ?U @ hd ?V"
    by (rule nth_append_length)
  show "character ?q \<le> length (splitLines text ! line ?q)"
    unfolding B lq cq nth by simp
  have "prefixAt ?B ?q = joinLines (butlast ?U @ [last ?U])"
    unfolding prefixAt_def lq cq nth by simp
  also have "\<dots> = joinLines ?U"
    by simp
  finally show 3: "prefixAt (splitLines text) ?q = take off text"
    unfolding B by simp
  from 3 assms show "offsetOf (splitLines text) ?q = off"
    by (simp add: offsetOf_def)
qed

lemma positionAt_mono:
  assumes "a \<le> b"
  shows "posLe (positionAt text a) (positionAt text b)"
proof -
  let ?u = "take a text"
  let ?r = "drop a (take b text)"
  let ?U = "splitLines ?u"
  let ?R = "splitLines ?r"
  have "take b text = take a (take b text) @ ?r"
    by (metis append_take_drop_id)
  moreover from assms have "take a (take b text) = ?u"
    by (simp add: min_def)
  ultimately have "take b text = ?u @ ?r"
    by simp
  then have "splitLines (take b text) = splitLines (?u @ ?r)"
    by simp
  also have "\<dots> = butlast ?U @ (last ?U @ hd ?R) # tl ?R"
    by (rule splitLines_append)
  finally have s: "splitLines (take b text) = butlast ?U @ (last ?U @ hd ?R) # tl ?R" .
  obtain r rs where R: "?R = r # rs"
    by (cases ?R) simp_all
  with s have s': "splitLines (take b text) = butlast ?U @ (last ?U @ r) # rs"
    by simp
  show ?thesis
  proof (cases "rs = []")
    case True
    with s' show ?thesis
      by (simp add: positionAt_def posLe_def Let_def)
  next
    case False
    then have "0 < length rs"
      by simp
    with s' False show ?thesis
      by (simp add: positionAt_def posLe_def Let_def)
  qed
qed

subsection \<open>A batch that is already in the order of application\<close>

lemma sortBy_sorted:
  "sorted_wrt (\<lambda>x y. cmp x y \<le> 0) xs \<Longrightarrow> sortBy cmp xs = xs"
proof (induction xs)
  case Nil
  then show ?case by (simp add: sortBy_def)
next
  case (Cons x xs)
  then have "sortBy cmp xs = xs"
    by simp
  then have "sortBy cmp (x # xs) = insertBy cmp x xs"
    by (simp add: sortBy_def)
  with Cons.prems show ?case
    by (cases xs) simp_all
qed

lemma separatedSpans_weaken:
  "separatedSpans n spans \<Longrightarrow> n \<le> m \<Longrightarrow> separatedSpans m spans"
  by (cases spans) auto

lemma separatedSpans_bounds:
  "separatedSpans n spans \<Longrightarrow> (a, b, t) \<in> set spans \<Longrightarrow> a \<le> b \<and> b \<le> n"
proof (induction spans arbitrary: n)
  case Nil
  then show ?case by simp
next
  case (Cons sp spans)
  obtain a' b' t' where sp: "sp = (a', b', t')"
    by (cases sp) auto
  from Cons.prems(1) sp have ab: "a' \<le> b'" "b' \<le> n" and sep: "separatedSpans a' spans"
    by simp_all
  show ?case
  proof (cases "(a, b, t) = sp")
    case True
    with sp ab show ?thesis by simp
  next
    case False
    with Cons.prems(2) have "(a, b, t) \<in> set spans"
      by simp
    from Cons.IH [OF sep this] ab show ?thesis
      by simp
  qed
qed

lemma editAt_spans:
  assumes "separatedSpans n spans" and "n \<le> length post"
  shows "(\<forall>x\<in>set (map (editAt post) spans). inBounds (splitLines post) (erange x)) \<and>
     separatedInOrder (map (editAt post) spans) \<and>
     map (spanOf (splitLines post)) (map (editAt post) spans) = spans \<and>
     sorted_wrt (\<lambda>x y. compareEdits x y \<le> 0) (map (editAt post) spans)"
  using assms
proof (induction spans arbitrary: n)
  case Nil
  then show ?case by simp
next
  case (Cons sp spans)
  obtain a b t where sp: "sp = (a, b, t)"
    by (cases sp) auto
  from Cons.prems sp have ab: "a \<le> b" "b \<le> length post" "a \<le> length post"
    and sep: "separatedSpans a spans"
    by simp_all
  from Cons.IH [OF sep ab(3)]
  have ih1: "\<forall>x\<in>set (map (editAt post) spans). inBounds (splitLines post) (erange x)"
    and ih2: "separatedInOrder (map (editAt post) spans)"
    and ih3: "map (spanOf (splitLines post)) (map (editAt post) spans) = spans"
    and ih4: "sorted_wrt (\<lambda>x y. compareEdits x y \<le> 0) (map (editAt post) spans)"
    by simp_all
  have e: "editAt post sp
      = \<lparr>erange = \<lparr>start = positionAt post a, finish = positionAt post b\<rparr>, newText = t\<rparr>"
    using sp by simp
  have ib: "inBounds (splitLines post) (erange (editAt post sp))"
    unfolding e inBounds_def
    using positionAt_mono [OF ab(1), of post] positionAt_bounds [OF ab(2)]
      positionAt_bounds [OF ab(3)]
    by simp
  have so: "spanOf (splitLines post) (editAt post sp) = sp"
    unfolding e spanOf_def using positionAt_bounds(4) [OF ab(2)] positionAt_bounds(4) [OF ab(3)] sp
    by simp
  have later: "\<forall>y\<in>set spans. posLe (finish (erange (editAt post y))) (start (erange (editAt post sp)))
      \<and> compareEdits (editAt post sp) (editAt post y) \<le> 0"
  proof
    fix y
    assume y: "y \<in> set spans"
    obtain a' b' t' where y': "y = (a', b', t')"
      by (cases y) auto
    from separatedSpans_bounds [OF sep] y y' have "a' \<le> b'" "b' \<le> a"
      by blast+
    then have "posLe (positionAt post b') (positionAt post a)"
      and "posLe (positionAt post a') (positionAt post a)"
      by (simp_all add: positionAt_mono)
    with y' e show "posLe (finish (erange (editAt post y))) (start (erange (editAt post sp)))
      \<and> compareEdits (editAt post sp) (editAt post y) \<le> 0"
      by (simp add: compareEdits_le)
  qed
  have s2: "separatedInOrder (editAt post sp # map (editAt post) spans)"
  proof (cases spans)
    case Nil
    then show ?thesis by simp
  next
    case (Cons y ys)
    with later ih2 show ?thesis by simp
  qed
  from ib ih1 s2 so ih3 later ih4 show ?case
    by simp
qed

subsection \<open>The bytes that the encoder gives\<close>

lemma of_nat_not_255: "n < 255 \<Longrightarrow> (of_nat n :: byte) \<noteq> 255"
proof
  assume n: "n < 255" and e: "(of_nat n :: byte) = 255"
  from e have "unat (of_nat n :: byte) = unat (255 :: byte)"
    by simp
  with n show False
    by (simp add: unat_of_nat)
qed

lemma loneUnit_bound: "loneUnit c < 65536"
proof -
  have "unat c < 2 ^ 16"
    using unsigned_less [of c] by simp
  then show ?thesis
    by (simp add: loneUnit_def)
qed

lemma codePoints_bound: "cp \<in> set (codePoints s) \<Longrightarrow> cp < 1114112"
proof (induction s arbitrary: cp rule: codePoints.induct)
  case 1
  then show ?case by simp
next
  case (2 c)
  then show ?case
    using loneUnit_bound [of c] by simp
next
  case (3 c d cs)
  show ?case
  proof (cases "isHighSurrogate c \<and> isLowSurrogate d")
    case True
    then have h: "unat c - 55296 \<le> 1023" and l: "unat d - 56320 \<le> 1023"
      by (auto simp: isHighSurrogate_def isLowSurrogate_def)
    from h have "(unat c - 55296) * 1024 \<le> 1023 * 1024"
      by (rule mult_le_mono1)
    with l have "65536 + (unat c - 55296) * 1024 + (unat d - 56320) < 1114112"
      by simp
    with 3 True show ?thesis
      by auto
  next
    case False
    with 3 loneUnit_bound [of c] show ?thesis
      by auto
  qed
qed

lemma utf8Bytes_not_255: "cp < 1114112 \<Longrightarrow> 255 \<notin> set (utf8Bytes cp)"
proof -
  assume b: "cp < 1114112"
  have m: "\<And>k. k mod 64 < (64 :: nat)"
    by simp
  have a: "\<And>k. (of_nat (128 + k mod 64) :: byte) \<noteq> 255"
    by (rule of_nat_not_255) (simp add: less_le_trans [OF add_strict_left_mono [OF m]])
  have c1: "cp < 128 \<Longrightarrow> (of_nat cp :: byte) \<noteq> 255"
    by (rule of_nat_not_255) simp
  have c2: "cp < 2048 \<Longrightarrow> (of_nat (192 + cp div 64) :: byte) \<noteq> 255"
    by (rule of_nat_not_255) simp
  have c3: "cp < 65536 \<Longrightarrow> (of_nat (224 + cp div 4096) :: byte) \<noteq> 255"
    by (rule of_nat_not_255) simp
  from b have c4: "(of_nat (240 + cp div 262144) :: byte) \<noteq> 255"
    by (intro of_nat_not_255) simp
  from a c1 c2 c3 c4 show ?thesis
    by (auto simp: utf8Bytes_def simp del: of_nat_add)
qed

lemma utf8Encode_not_255: "255 \<notin> set (utf8Encode s)"
  using codePoints_bound utf8Bytes_not_255 by (auto simp: utf8Encode_def)

subsection \<open>A run of applyTextEdits on a file\<close>

lemma length_inverseSpans [simp]: "length (inverseSpans x spans) = length spans"
proof (induction spans arbitrary: x)
  case Nil
  then show ?case by simp
next
  case (Cons sp spans)
  obtain a b t where "sp = (a, b, t)"
    by (cases sp) auto
  with Cons show ?case
    by (simp add: Let_def)
qed

lemma applyTextEditsOn_writes:
  assumes "files w p = Some held"
    and "\<not> callFails fs (ReadFile p) (files w)"
    and "edits \<noteq> []"
    and "applyEdits (splitLines (decodeText fs held)) (sortBy compareEdits edits) = Inr ls'"
    and "\<not> callFails fs (WriteFile p (joinLines ls')) (files w)"
  shows "fst (applyTextEditsOn fs p edits False w) = Inr (length edits)"
    and "files (snd (applyTextEditsOn fs p edits False w))
           = (files w)(p \<mapsto> encodeText fs (joinLines ls'))"
  using assms
  by (simp_all add: applyTextEditsOn_def readFile_def writeFile_def log_def Let_def)

lemma applyTextEditsOn_separated:
  assumes held: "files w p = Some held"
    and reads: "\<forall>held. \<not> callFails fs (ReadFile p) held"
    and writes: "\<forall>text held. \<not> callFails fs (WriteFile p text) held"
    and ne: "edits \<noteq> []"
    and ib: "\<forall>e\<in>set edits. inBounds (splitLines (decodeText fs held)) (erange e)"
    and sep: "separatedInOrder (sortBy compareEdits edits)"
  shows "fst (applyTextEditsOn fs p edits False w) = Inr (length edits)"
    and "files (snd (applyTextEditsOn fs p edits False w))
           = (files w)(p \<mapsto> encodeText fs (postText (decodeText fs held) edits))"
    and "separatedSpans (length (decodeText fs held))
           (map (spanOf (splitLines (decodeText fs held))) (sortBy compareEdits edits))"
proof -
  let ?original = "decodeText fs held"
  let ?ls = "splitLines ?original"
  from ne have "sortBy compareEdits edits \<noteq> []"
    by (metis length_sortBy length_0_conv)
  then obtain e es where s: "sortBy compareEdits edits = e # es"
    by (cases "sortBy compareEdits edits") simp_all
  have "set (e # es) = set edits"
    unfolding s [symmetric] by simp
  with ib have ib': "\<forall>x\<in>set (e # es). inBounds ?ls (erange x)"
    by blast
  from sep s have sep': "separatedInOrder (e # es)"
    by simp
  have nf: "\<forall>l\<in>set ?ls. newline \<notin> set l"
    by (blast dest: splitLines_no_newline)
  from ib' have b: "line (finish (erange e)) < length ?ls"
    and c: "character (finish (erange e)) \<le> length (?ls ! line (finish (erange e)))"
    by (simp_all add: inBounds_def)
  from b c have ag: "agreeUpTo ?ls ?ls (finish (erange e))"
    by (rule agreeUpTo_refl)
  from applyEdits_joined [OF ag sep' ib' nf] obtain ls'
    where r: "applyEdits ?ls (e # es) = Inr ls'"
      and j: "joinLines ls' = replaceSpans (joinLines ?ls) (map (spanOf ?ls) (e # es))"
    by blast
  from j s have j': "joinLines ls' = postText ?original edits"
    by (simp add: postText_def)
  from r s have r': "applyEdits ?ls (sortBy compareEdits edits) = Inr ls'"
    by simp
  from reads have rd: "\<not> callFails fs (ReadFile p) (files w)"
    by simp
  from writes have wr: "\<not> callFails fs (WriteFile p (joinLines ls')) (files w)"
    by simp
  from applyTextEditsOn_writes(1) [OF held rd ne r' wr]
  show "fst (applyTextEditsOn fs p edits False w) = Inr (length edits)" .
  from applyTextEditsOn_writes(2) [OF held rd ne r' wr] j'
  show "files (snd (applyTextEditsOn fs p edits False w))
           = (files w)(p \<mapsto> encodeText fs (postText ?original edits))"
    by simp
  from b have "offsetOf ?ls (finish (erange e)) \<le> length (joinLines ?ls)"
    by (rule prefixAt_take)
  then have n: "offsetOf ?ls (finish (erange e)) \<le> length ?original"
    by simp
  from separatedSpans_spanOf [OF ib' sep' n] s
  show "separatedSpans (length ?original) (map (spanOf ?ls) (sortBy compareEdits edits))"
    by simp
qed

lemma logicalInverse_restores:
  assumes held: "files w p = Some held"
    and decoded: "decodeText fs held = original"
    and faithful: "encodeText fs original = held"
    and reads: "\<forall>held. \<not> callFails fs (ReadFile p) held"
    and writes: "\<forall>text held. \<not> callFails fs (WriteFile p text) held"
    and ib: "\<forall>e\<in>set edits. inBounds (splitLines original) (erange e)"
    and sep: "separatedInOrder (sortBy compareEdits edits)"
    and post: "decodeText fs (encodeText fs (postText original edits)) = postText original edits"
  shows "fst (applyTextEditsOn fs p edits False w) = Inr (length edits)"
    and "files (snd (applyTextEditsOn fs p edits False w))
           = (files w)(p \<mapsto> encodeText fs (postText original edits))"
    and "fst (applyTextEditsOn fs p (logicalInverse original edits (postText original edits)) False
                (snd (applyTextEditsOn fs p edits False w))) = Inr (length edits)"
    and "files (snd (applyTextEditsOn fs p
                       (logicalInverse original edits (postText original edits)) False
                       (snd (applyTextEditsOn fs p edits False w)))) = files w"
proof -
  let ?post = "postText original edits"
  let ?inverse = "logicalInverse original edits ?post"
  let ?w1 = "snd (applyTextEditsOn fs p edits False w)"
  let ?spans = "map (spanOf (splitLines original)) (sortBy compareEdits edits)"
  have goal: "fst (applyTextEditsOn fs p edits False w) = Inr (length edits) \<and>
     files ?w1 = (files w)(p \<mapsto> encodeText fs ?post) \<and>
     fst (applyTextEditsOn fs p ?inverse False ?w1) = Inr (length edits) \<and>
     files (snd (applyTextEditsOn fs p ?inverse False ?w1)) = files w"
  proof (cases "edits = []")
    case True
    with held faithful show ?thesis
      by (auto simp: applyTextEditsOn_def logicalInverse_def postText_def sortBy_def)
  next
    case False
    from ib decoded have ib1: "\<forall>e\<in>set edits. inBounds (splitLines (decodeText fs held)) (erange e)"
      by simp
    note first = applyTextEditsOn_separated [OF held reads writes False ib1 sep]
    from first(1) have r1: "fst (applyTextEditsOn fs p edits False w) = Inr (length edits)" .
    from first(2) decoded have f1: "files ?w1 = (files w)(p \<mapsto> encodeText fs ?post)"
      by simp
    from first(3) decoded have ss: "separatedSpans (length original) ?spans"
      by simp
    have p: "?post = replaceSpans original ?spans"
      by (simp add: postText_def)
    from separatedSpans_inverseSpans [OF ss] p
    have si: "separatedSpans (length ?post) (inverseSpans original ?spans)"
      by simp
    from replaceSpans_inverseSpans [OF ss] p
    have undone: "replaceSpans ?post (inverseSpans original ?spans) = original"
      by simp
    have inv: "?inverse = map (editAt ?post) (inverseSpans original ?spans)"
      by (simp add: logicalInverse_def)
    from editAt_spans [OF si order_refl] inv
    have ib2: "\<forall>x\<in>set ?inverse. inBounds (splitLines ?post) (erange x)"
      and sep2: "separatedInOrder ?inverse"
      and sp2: "map (spanOf (splitLines ?post)) ?inverse = inverseSpans original ?spans"
      and so2: "sorted_wrt (\<lambda>x y. compareEdits x y \<le> 0) ?inverse"
      by simp_all
    from so2 have id: "sortBy compareEdits ?inverse = ?inverse"
      by (rule sortBy_sorted)
    have len: "length ?inverse = length edits"
      by (simp add: logicalInverse_def)
    with False have ne2: "?inverse \<noteq> []"
      by (metis length_0_conv)
    from f1 have held1: "files ?w1 p = Some (encodeText fs ?post)"
      by simp
    from ib2 post
    have ib2': "\<forall>e\<in>set ?inverse.
        inBounds (splitLines (decodeText fs (encodeText fs ?post))) (erange e)"
      by simp
    from sep2 id have sep2': "separatedInOrder (sortBy compareEdits ?inverse)"
      by simp
    note second = applyTextEditsOn_separated [OF held1 reads writes ne2 ib2' sep2']
    from second(1) len
    have r2: "fst (applyTextEditsOn fs p ?inverse False ?w1) = Inr (length edits)"
      by simp
    have "postText ?post ?inverse = original"
      using sp2 id undone by (simp add: postText_def)
    with second(2) post
    have "files (snd (applyTextEditsOn fs p ?inverse False ?w1))
        = (files ?w1)(p \<mapsto> encodeText fs original)"
      by simp
    also have "\<dots> = (files w)(p \<mapsto> held)"
      using f1 faithful by simp
    also have "\<dots> = files w"
      using held by (simp add: map_upd_triv)
    finally have f2: "files (snd (applyTextEditsOn fs p ?inverse False ?w1)) = files w" .
    from r1 f1 r2 f2 show ?thesis
      by blast
  qed
  from goal show "fst (applyTextEditsOn fs p edits False w) = Inr (length edits)"
    by blast
  from goal show "files ?w1 = (files w)(p \<mapsto> encodeText fs ?post)"
    by blast
  from goal show "fst (applyTextEditsOn fs p ?inverse False ?w1) = Inr (length edits)"
    by blast
  from goal show "files (snd (applyTextEditsOn fs p ?inverse False ?w1)) = files w"
    by blast
qed

subsection \<open>Batches that are separated in the order of application\<close>

lemma nonOverlapping_sym: "nonOverlapping r r' = nonOverlapping r' r"
  by (auto simp: nonOverlapping_def)

lemma pairwiseNonOverlapping_insertBy:
  "pairwiseNonOverlapping (insertBy cmp x ys) =
     ((\<forall>y\<in>set ys. nonOverlapping (erange x) (erange y)) \<and> pairwiseNonOverlapping ys)"
  by (induction ys) (auto simp: nonOverlapping_sym)

lemma pairwiseNonOverlapping_sortBy:
  "pairwiseNonOverlapping (sortBy cmp es) = pairwiseNonOverlapping es"
proof (induction es)
  case Nil
  then show ?case by (simp add: sortBy_def)
next
  case (Cons e es)
  have "sortBy cmp (e # es) = insertBy cmp e (sortBy cmp es)"
    by (simp add: sortBy_def)
  with Cons show ?case
    by (simp add: pairwiseNonOverlapping_insertBy)
qed

lemma posLe_antisym: "posLe p q \<Longrightarrow> posLe q p \<Longrightarrow> p = (q :: Position)"
  by (auto simp: posLe_def)

lemma separatedInOrder_sorted:
  assumes "sorted_wrt (\<lambda>a b. posLe (start (erange b)) (start (erange a))) es"
    and "pairwiseNonOverlapping es"
    and "distinct (map (\<lambda>e. start (erange e)) es)"
    and "\<forall>e\<in>set es. posLe (start (erange e)) (finish (erange e))"
  shows "separatedInOrder es"
  using assms
proof (induction es)
  case Nil
  then show ?case by simp
next
  case (Cons e rest)
  show ?case
  proof (cases rest)
    case Nil
    then show ?thesis by simp
  next
    case later: (Cons e' es)
    from Cons.prems(1) later have so: "posLe (start (erange e')) (start (erange e))"
      by simp
    from Cons.prems(3) later have ne: "start (erange e) \<noteq> start (erange e')"
      by simp
    from Cons.prems(4) have le: "posLe (start (erange e)) (finish (erange e))"
      by simp
    from Cons.prems(2) later have "nonOverlapping (erange e) (erange e')"
      by simp
    then have "posLe (finish (erange e')) (start (erange e))"
    proof (unfold nonOverlapping_def, elim disjE)
      assume "posLe (finish (erange e)) (start (erange e'))"
      with le have "posLe (start (erange e)) (start (erange e'))"
        by (rule posLe_trans)
      with so have "start (erange e) = start (erange e')"
        by (blast intro: posLe_antisym)
      with ne show ?thesis
        by simp
    next
      assume "posLe (finish (erange e')) (start (erange e))"
      then show ?thesis .
    qed
    moreover from Cons.prems have "separatedInOrder rest"
      by (intro Cons.IH) simp_all
    ultimately show ?thesis
      using later by simp
  qed
qed

lemma separatedInOrder_sortBy:
  assumes "pairwiseNonOverlapping edits"
    and "distinct (map (\<lambda>e. start (erange e)) edits)"
    and "\<forall>e\<in>set edits. posLe (start (erange e)) (finish (erange e))"
  shows "separatedInOrder (sortBy compareEdits edits)"
proof (rule separatedInOrder_sorted)
  show "sorted_wrt (\<lambda>a b. posLe (start (erange b)) (start (erange a)))
          (sortBy compareEdits edits)"
    by (rule sorted_sortBy_compareEdits)
  from assms(1) show "pairwiseNonOverlapping (sortBy compareEdits edits)"
    by (simp add: pairwiseNonOverlapping_sortBy)
  have "mset (map (\<lambda>e. start (erange e)) (sortBy compareEdits edits))
      = mset (map (\<lambda>e. start (erange e)) edits)"
    by simp
  with assms(2) show "distinct (map (\<lambda>e. start (erange e)) (sortBy compareEdits edits))"
    by (metis mset_eq_imp_distinct_iff)
  from assms(3) show "\<forall>e\<in>set (sortBy compareEdits edits).
      posLe (start (erange e)) (finish (erange e))"
    by simp
qed

text \<open>
  Pairwise non-overlapping edits need not be separated in the order of application: the
  sort keeps edits with the same start in the order of the batch, so an insertion listed
  before a replacement that starts at the same position is applied first, and the
  replacement then replaces the start of what was inserted.
\<close>

lemma same_start_not_separated:
  "pairwiseNonOverlapping [mkEdit 0 0 0 0 ''X'', mkEdit 0 0 0 1 ''Y''] \<and>
   \<not> separatedInOrder (sortBy compareEdits [mkEdit 0 0 0 0 ''X'', mkEdit 0 0 0 1 ''Y'']) \<and>
   applyEdits (splitLines (str ''abc''))
     (sortBy compareEdits [mkEdit 0 0 0 0 ''X'', mkEdit 0 0 0 1 ''Y''])
     = Inr [str ''Yabc'']"
  by (simp add: nonOverlapping_def posLe_def sortBy_def compareEdits_def mkEdit_def
        applyEdit_def str_def)

subsection \<open>What a run leaves in a file\<close>

lemma applyTextEditsOn_held:
  "files (snd (applyTextEditsOn fs p edits dryRun w)) p = files w p
   \<or> (\<exists>t. files (snd (applyTextEditsOn fs p edits dryRun w)) p = Some (encodeText fs t))"
  by (auto simp: applyTextEditsOn_def readFile_def writeFile_def log_def Let_def
        split: option.splits sum.splits)




end
